theory Spec2Isabelle
  imports Main "HOL-Library.Word" "HOL-Library.Signed_Division"
begin

unbundle bit_operations_syntax

section \<open>Common machine types\<close>

type_synonym u8 = "8 word"
type_synonym u16 = "16 word"
type_synonym u32 = "32 word"

text \<open>\<^verbatim>\<open>typedef uint32_t aj_timestamp_ms_t;\<close>\<close>

type_synonym aj_timestamp_ms = u32

section \<open>Mode switch (rc\_channels.cpp, aj\_switch.h)\<close>

text \<open>
  \<^verbatim>\<open>aj_switch_mode_t\<close> is an unscoped enum with enumerators 0, 1, 2 and no fixed underlying
  type. The setters test \<^verbatim>\<open>mode > AJ_SWITCH_MODE_HIGH\<close>, so values outside the enumerators are
  inputs the code expects; the mode is therefore kept as the 32-bit object that carries the
  enum. In that test both operands undergo integral promotion to \<^verbatim>\<open>int\<close>, so the comparison is
  a signed one: it reads the object through \<open>sint\<close>, and an object with bit 31 set is negative
  there and passes the test. The equality \<^verbatim>\<open>ctx->mode == mode\<close> is promoted in the same way and
  holds exactly when the two objects are equal.
\<close>

type_synonym aj_switch_mode = u32

definition AJ_SWITCH_MODE_AUTO :: aj_switch_mode where
  "AJ_SWITCH_MODE_AUTO = 0"

definition AJ_SWITCH_MODE_LOW :: aj_switch_mode where
  "AJ_SWITCH_MODE_LOW = 1"

definition AJ_SWITCH_MODE_HIGH :: aj_switch_mode where
  "AJ_SWITCH_MODE_HIGH = 2"

datatype aj_switch_result =
  AJ_SW_RET_OK | AJ_SW_RET_DENIED | AJ_SW_RET_NOCHANGE | AJ_SW_RET_INVALID

text \<open>
  \<^verbatim>\<open>struct aj_switch_ctx_s\<close>. The callback is a function pointer: \<open>None\<close> is \<^verbatim>\<open>NULL\<close>,
  \<open>Some f\<close> the address of a registered function. \<open>cb_ctx\<close> is the opaque user pointer.
\<close>

record aj_switch_ctx =
  enabled :: u8
  mode :: aj_switch_mode
  controller_only :: u8
  last_change_ms :: aj_timestamp_ms
  cb :: "nat option"
  cb_ctx :: nat

text \<open>One invocation of the notify callback, with the arguments it received.\<close>

record aj_switch_notify =
  notify_fn :: nat
  notify_enabled :: u8
  notify_mode :: aj_switch_mode
  notify_when_ms :: aj_timestamp_ms
  notify_user_ctx :: nat

text \<open>
  \<^verbatim>\<open>static void notify_if_changed(aj_switch_ctx_t* ctx)\<close>: calls \<^verbatim>\<open>ctx->cb\<close> when it is set.
  The model returns the list of calls made (empty or one call).
\<close>

definition notify_if_changed :: "aj_switch_ctx \<Rightarrow> aj_switch_notify list" where
  "notify_if_changed ctx =
     (case cb ctx of
        None \<Rightarrow> []
      | Some f \<Rightarrow> [\<lparr>notify_fn = f, notify_enabled = enabled ctx, notify_mode = mode ctx,
                    notify_when_ms = last_change_ms ctx, notify_user_ctx = cb_ctx ctx\<rparr>])"

text \<open>
  The setters take a context pointer (\<open>None\<close> is \<^verbatim>\<open>NULL\<close>) and return the result code, the
  context as it is after the call, and the notify calls made during the call.
\<close>

type_synonym aj_switch_outcome =
  "aj_switch_result \<times> aj_switch_ctx option \<times> aj_switch_notify list"

definition bool01 :: "u8 \<Rightarrow> u8" where
  "bool01 enable = (if enable \<noteq> 0 then 1 else 0)"

definition aj_switch_init :: "nat \<Rightarrow> nat \<Rightarrow> bool \<Rightarrow> aj_switch_ctx option" where
  "aj_switch_init ctx_size buffer_size buffer_null =
     (if buffer_null \<or> buffer_size < ctx_size then None
      else Some \<lparr>enabled = 0, mode = AJ_SWITCH_MODE_AUTO, controller_only = 0,
                 last_change_ms = 0, cb = None, cb_ctx = 0\<rparr>)"

definition aj_switch_reset :: "aj_switch_ctx option \<Rightarrow> aj_switch_ctx option" where
  "aj_switch_reset p =
     (case p of
        None \<Rightarrow> None
      | Some ctx \<Rightarrow> Some (ctx\<lparr>enabled := 0, mode := AJ_SWITCH_MODE_AUTO,
                              controller_only := 0, last_change_ms := 0\<rparr>))"

definition aj_switch_set_enabled ::
  "aj_switch_ctx option \<Rightarrow> u8 \<Rightarrow> aj_timestamp_ms \<Rightarrow> aj_switch_outcome" where
  "aj_switch_set_enabled p enable when_ms =
     (case p of
        None \<Rightarrow> (AJ_SW_RET_INVALID, None, [])
      | Some ctx \<Rightarrow>
          if enabled ctx = bool01 enable then (AJ_SW_RET_NOCHANGE, Some ctx, [])
          else
            (let ctx' = ctx\<lparr>enabled := bool01 enable, last_change_ms := when_ms\<rparr>
             in (AJ_SW_RET_OK, Some ctx', notify_if_changed ctx')))"

definition aj_switch_is_enabled :: "aj_switch_ctx option \<Rightarrow> u8" where
  "aj_switch_is_enabled p = (case p of None \<Rightarrow> 0 | Some ctx \<Rightarrow> enabled ctx)"

definition aj_switch_set_mode_local ::
  "aj_switch_ctx option \<Rightarrow> aj_switch_mode \<Rightarrow> aj_timestamp_ms \<Rightarrow> aj_switch_outcome" where
  "aj_switch_set_mode_local p m when_ms =
     (case p of
        None \<Rightarrow> (AJ_SW_RET_INVALID, None, [])
      | Some ctx \<Rightarrow>
          if sint m > sint AJ_SWITCH_MODE_HIGH then (AJ_SW_RET_INVALID, Some ctx, [])
          else if controller_only ctx \<noteq> 0 then (AJ_SW_RET_DENIED, Some ctx, [])
          else if mode ctx = m then (AJ_SW_RET_NOCHANGE, Some ctx, [])
          else
            (let ctx' = ctx\<lparr>mode := m, last_change_ms := when_ms\<rparr>
             in (AJ_SW_RET_OK, Some ctx', notify_if_changed ctx')))"

definition aj_switch_set_mode_from_controller ::
  "aj_switch_ctx option \<Rightarrow> aj_switch_mode \<Rightarrow> aj_timestamp_ms \<Rightarrow> aj_switch_outcome" where
  "aj_switch_set_mode_from_controller p m when_ms =
     (case p of
        None \<Rightarrow> (AJ_SW_RET_INVALID, None, [])
      | Some ctx \<Rightarrow>
          if sint m > sint AJ_SWITCH_MODE_HIGH then (AJ_SW_RET_INVALID, Some ctx, [])
          else if mode ctx = m then (AJ_SW_RET_NOCHANGE, Some ctx, [])
          else
            (let ctx' = ctx\<lparr>mode := m, last_change_ms := when_ms\<rparr>
             in (AJ_SW_RET_OK, Some ctx', notify_if_changed ctx')))"

definition aj_switch_get_mode :: "aj_switch_ctx option \<Rightarrow> aj_switch_mode" where
  "aj_switch_get_mode p = (case p of None \<Rightarrow> AJ_SWITCH_MODE_AUTO | Some ctx \<Rightarrow> mode ctx)"

definition aj_switch_set_controller_only ::
  "aj_switch_ctx option \<Rightarrow> u8 \<Rightarrow> aj_switch_ctx option" where
  "aj_switch_set_controller_only p v =
     (case p of
        None \<Rightarrow> None
      | Some ctx \<Rightarrow> Some (ctx\<lparr>controller_only := bool01 v\<rparr>))"

definition aj_switch_is_controller_only :: "aj_switch_ctx option \<Rightarrow> u8" where
  "aj_switch_is_controller_only p = (case p of None \<Rightarrow> 0 | Some ctx \<Rightarrow> controller_only ctx)"

definition aj_switch_request_enable_from_controller ::
  "aj_switch_ctx option \<Rightarrow> u8 \<Rightarrow> aj_timestamp_ms \<Rightarrow> aj_switch_outcome" where
  "aj_switch_request_enable_from_controller p enable when_ms =
     (case p of
        None \<Rightarrow> (AJ_SW_RET_INVALID, None, [])
      | Some ctx \<Rightarrow>
          if enabled ctx = bool01 enable then (AJ_SW_RET_NOCHANGE, Some ctx, [])
          else
            (let ctx' = ctx\<lparr>enabled := bool01 enable, last_change_ms := when_ms\<rparr>
             in (AJ_SW_RET_OK, Some ctx', notify_if_changed ctx')))"

definition aj_switch_register_notify_cb ::
  "aj_switch_ctx option \<Rightarrow> nat option \<Rightarrow> nat \<Rightarrow> aj_switch_ctx option" where
  "aj_switch_register_notify_cb p f user_ctx =
     (case p of
        None \<Rightarrow> None
      | Some ctx \<Rightarrow> Some (ctx\<lparr>cb := f, cb_ctx := user_ctx\<rparr>))"

text \<open>
  The four set-operations as one family, so that a statement about "a set-operation" can
  range over all of them: each constructor is one call with its arguments.
\<close>

datatype aj_switch_op =
  Set_enabled u8 aj_timestamp_ms
| Set_mode_local aj_switch_mode aj_timestamp_ms
| Set_mode_from_controller aj_switch_mode aj_timestamp_ms
| Request_enable_from_controller u8 aj_timestamp_ms

fun aj_switch_apply :: "aj_switch_op \<Rightarrow> aj_switch_ctx \<Rightarrow> aj_switch_outcome" where
  "aj_switch_apply (Set_enabled e t) ctx = aj_switch_set_enabled (Some ctx) e t"
| "aj_switch_apply (Set_mode_local m t) ctx = aj_switch_set_mode_local (Some ctx) m t"
| "aj_switch_apply (Set_mode_from_controller m t) ctx =
     aj_switch_set_mode_from_controller (Some ctx) m t"
| "aj_switch_apply (Request_enable_from_controller e t) ctx =
     aj_switch_request_enable_from_controller (Some ctx) e t"

text \<open>The argument of the call names the value the context already holds.\<close>

fun call_equals_current :: "aj_switch_op \<Rightarrow> aj_switch_ctx \<Rightarrow> bool" where
  "call_equals_current (Set_enabled e t) ctx = (bool01 e = enabled ctx)"
| "call_equals_current (Set_mode_local m t) ctx = (m = mode ctx)"
| "call_equals_current (Set_mode_from_controller m t) ctx = (m = mode ctx)"
| "call_equals_current (Request_enable_from_controller e t) ctx = (bool01 e = enabled ctx)"

fun is_local_mode_call :: "aj_switch_op \<Rightarrow> bool" where
  "is_local_mode_call (Set_mode_local m t) = True"
| "is_local_mode_call _ = False"

text \<open>The call changed \<open>enabled\<close> or \<open>mode\<close> of the context.\<close>

definition switch_changed :: "aj_switch_ctx \<Rightarrow> aj_switch_ctx option \<Rightarrow> bool" where
  "switch_changed ctx p =
     (case p of
        None \<Rightarrow> False
      | Some ctx' \<Rightarrow> enabled ctx' \<noteq> enabled ctx \<or> mode ctx' \<noteq> mode ctx)"

text \<open>
  A mode value above \<^verbatim>\<open>AJ_SWITCH_MODE_HIGH\<close> that is still a non-negative \<^verbatim>\<open>int\<close>: one of
  3, 4, ..., 2147483647.
\<close>

definition mode_above_high :: "aj_switch_mode \<Rightarrow> bool" where
  "mode_above_high m = (AJ_SWITCH_MODE_HIGH < m \<and> m \<le> 0x7FFFFFFF)"

text \<open>A mode setter was handed such a value.\<close>

fun mode_arg_invalid :: "aj_switch_op \<Rightarrow> bool" where
  "mode_arg_invalid (Set_mode_local m t) = mode_above_high m"
| "mode_arg_invalid (Set_mode_from_controller m t) = mode_above_high m"
| "mode_arg_invalid _ = False"

section \<open>FHSS sequence cursor and frequency map (FHSS.h)\<close>

text \<open>
  The header selects constants by radio class with the preprocessor
  (\<^verbatim>\<open>RADIO_SX127X\<close>, \<^verbatim>\<open>RADIO_LR1121\<close>, \<^verbatim>\<open>RADIO_SX128X\<close>); the class is a parameter here.
\<close>

datatype radio_class = RADIO_SX127X | RADIO_LR1121 | RADIO_SX128X

definition FREQ_SPREAD_SCALE :: "radio_class \<Rightarrow> u32" where
  "FREQ_SPREAD_SCALE rc = (if rc = RADIO_LR1121 then 1 else 256)"

definition FHSS_SEQUENCE_LEN :: nat where
  "FHSS_SEQUENCE_LEN = 256"

text \<open>\<^verbatim>\<open>fhss_config_t\<close>\<close>

record fhss_config =
  domain :: string
  freq_start :: u32
  freq_stop :: u32
  freq_count :: u32
  freq_center :: u32

text \<open>
  The globals of the header. The two sequence tables have \<^verbatim>\<open>FHSS_SEQUENCE_LEN\<close> = 256 entries
  and are only ever indexed by the 8-bit cursor, so each is a function from the cursor to a
  channel. \<^verbatim>\<open>FreqCorrection\<close> is an \<^verbatim>\<open>int32_t\<close> that the code subtracts from a \<^verbatim>\<open>uint32_t\<close>: the
  subtraction is done modulo \<open>2 ^ 32\<close> on its two's-complement bits. The band pointers
  \<^verbatim>\<open>FHSSconfig\<close> and \<^verbatim>\<open>FHSSconfigDualBand\<close> are taken to point at a descriptor.
\<close>

record fhss =
  FHSSptr :: u8
  FHSSptrSynced :: u8
  FreqCorrection :: u32
  FreqCorrection_2 :: u32
  primaryBandCount :: u16
  freq_spread :: u32
  FHSSsequence :: "u8 \<Rightarrow> u8"
  sync_channel :: u8
  FHSSconfig :: fhss_config
  FHSSusePrimaryFreqBand :: bool
  FHSSuseDualBand :: bool
  secondaryBandCount :: u16
  freq_spread_DualBand :: u32
  FHSSsequence_DualBand :: "u8 \<Rightarrow> u8"
  sync_channel_DualBand :: u8
  FHSSconfigDualBand :: fhss_config
  FHSSHopCycleArmed :: u8
  FHSSSyncEpoch :: u32

definition FHSSgetMinimumFreq :: "fhss \<Rightarrow> u32" where
  "FHSSgetMinimumFreq g = freq_start (FHSSconfig g)"

definition FHSSgetMaximumFreq :: "fhss \<Rightarrow> u32" where
  "FHSSgetMaximumFreq g = freq_stop (FHSSconfig g)"

definition FHSSgetChannelCount :: "fhss \<Rightarrow> u32" where
  "FHSSgetChannelCount g =
     (if FHSSusePrimaryFreqBand g then freq_count (FHSSconfig g)
      else freq_count (FHSSconfigDualBand g))"

definition FHSSgetSequenceCount :: "fhss \<Rightarrow> u16" where
  "FHSSgetSequenceCount g =
     (if FHSSuseDualBand g then
        (if primaryBandCount g < secondaryBandCount g then primaryBandCount g
         else secondaryBandCount g)
      else if FHSSusePrimaryFreqBand g then primaryBandCount g
      else secondaryBandCount g)"

definition FHSSgetCurrIndex :: "fhss \<Rightarrow> u8" where
  "FHSSgetCurrIndex g = FHSSptr g"

definition FHSSGetSyncedIndex :: "fhss \<Rightarrow> u8" where
  "FHSSGetSyncedIndex g = FHSSptrSynced g"

text \<open>
  \<^verbatim>\<open>(cursor + 1) % FHSSgetSequenceCount()\<close>: both operands are promoted to \<^verbatim>\<open>int\<close>, so the sum
  does not wrap; the result is then stored into a \<^verbatim>\<open>uint8_t\<close>. The caller excludes a sequence
  count of 0, where the C remainder is undefined.
\<close>

definition next_index :: "u8 \<Rightarrow> u16 \<Rightarrow> u8" where
  "next_index p n = of_nat ((unat p + 1) mod unat n)"

text \<open>
  \<^verbatim>\<open>FHSSsetCurrIndex\<close>: \<^verbatim>\<open>value % FHSSgetSequenceCount()\<close>; \<open>None\<close> is the undefined remainder by 0.
\<close>

definition FHSSsetCurrIndex :: "u8 \<Rightarrow> fhss \<Rightarrow> fhss option" where
  "FHSSsetCurrIndex v g =
     (if FHSSgetSequenceCount g = 0 then None
      else
        (let p = (of_nat (unat v mod unat (FHSSgetSequenceCount g)) :: u8)
         in Some (g\<lparr>FHSSptr := p, FHSSptrSynced := p\<rparr>)))"

text \<open>
  \<^verbatim>\<open>FHSSgetNextFreq\<close>: advances \<^verbatim>\<open>FHSSptr\<close> and returns the carrier of the new slot. All of
  the frequency arithmetic is \<^verbatim>\<open>uint32_t\<close> arithmetic (the sequence entry and the scale are
  converted to \<^verbatim>\<open>uint32_t\<close>), hence on \<open>32 word\<close>. Only the SX127X build subtracts the
  correction, and only on the primary band.
\<close>

definition FHSSgetNextFreq :: "radio_class \<Rightarrow> fhss \<Rightarrow> (u32 \<times> fhss) option" where
  "FHSSgetNextFreq rc g =
     (if FHSSgetSequenceCount g = 0 then None
      else
        (let g' = g\<lparr>FHSSptr := next_index (FHSSptr g) (FHSSgetSequenceCount g)\<rparr>
         in Some
           (if FHSSusePrimaryFreqBand g' then
              (if rc = RADIO_SX127X then
                 freq_start (FHSSconfig g')
                   + (freq_spread g' * ucast (FHSSsequence g' (FHSSptr g'))
                        div FREQ_SPREAD_SCALE rc)
                   - FreqCorrection g'
               else
                 freq_start (FHSSconfig g')
                   + (freq_spread g' * ucast (FHSSsequence g' (FHSSptr g'))
                        div FREQ_SPREAD_SCALE rc))
            else
              freq_start (FHSSconfigDualBand g')
                + (freq_spread_DualBand g' * ucast (FHSSsequence_DualBand g' (FHSSptr g'))
                     div FREQ_SPREAD_SCALE rc),
            g')))"

text \<open>
  Modelled from the spec: the assignment of \<^verbatim>\<open>freq_spread\<close> and \<^verbatim>\<open>freq_spread_DualBand\<close> lives in
  the FHSS implementation file, which is not among the sources. Section 4.B gives
  \<open>spread = (freq_stop - freq_start) / (freq_count - 1)\<close>, scaled by \<^verbatim>\<open>SPREAD_SCALE\<close> so that the
  frequency map can divide by the scale again; computed, like the map, in \<^verbatim>\<open>uint32_t\<close>.
\<close>

definition band_spread :: "radio_class \<Rightarrow> fhss_config \<Rightarrow> u32" where
  "band_spread rc b =
     (freq_stop b - freq_start b) * FREQ_SPREAD_SCALE rc div (freq_count b - 1)"

text \<open>The band, spread and sequence table that \<^verbatim>\<open>FHSSusePrimaryFreqBand\<close> selects.\<close>

definition active_band :: "fhss \<Rightarrow> fhss_config" where
  "active_band g = (if FHSSusePrimaryFreqBand g then FHSSconfig g else FHSSconfigDualBand g)"

definition active_spread :: "fhss \<Rightarrow> u32" where
  "active_spread g = (if FHSSusePrimaryFreqBand g then freq_spread g else freq_spread_DualBand g)"

definition active_sequence :: "fhss \<Rightarrow> u8 \<Rightarrow> u8" where
  "active_sequence g =
     (if FHSSusePrimaryFreqBand g then FHSSsequence g else FHSSsequence_DualBand g)"

subsection \<open>Dual-radio hop barrier\<close>

text \<open>\<^verbatim>\<open>FHSS_RADIO_1\<close> = 0 and \<^verbatim>\<open>FHSS_RADIO_2\<close> = 1, the two values of \<^verbatim>\<open>radio_id\<close>.\<close>

datatype fhss_radio = FHSS_RADIO_1 | FHSS_RADIO_2

text \<open>
  Modelled from the spec: \<^verbatim>\<open>FHSSBeginHopCycle\<close> is declared in the header but its body is not
  among the sources. Section 4.C: "arms the barrier; increments epoch".
\<close>

definition FHSSBeginHopCycle :: "fhss \<Rightarrow> fhss" where
  "FHSSBeginHopCycle g = g\<lparr>FHSSHopCycleArmed := 1, FHSSSyncEpoch := FHSSSyncEpoch g + 1\<rparr>"

text \<open>
  Modelled from the spec: the carrier a radio is given for the synced cursor. Section 4.B:
  \<open>freq = band.freq_start + (spread \<cdot> seq[i]) / SPREAD_SCALE - correction\<close>, with
  \<open>correction_2\<close> for the second radio; section 4.C and scenario 4: for dual-band the radio
  selects the band (primary for radio 0, secondary for radio 1), otherwise both radios use
  the same, active band.
\<close>

definition synced_freq :: "radio_class \<Rightarrow> fhss_radio \<Rightarrow> fhss \<Rightarrow> u32" where
  "synced_freq rc radio_id g =
     (let primary = (if FHSSuseDualBand g then radio_id = FHSS_RADIO_1
                     else FHSSusePrimaryFreqBand g);
          correction = (if radio_id = FHSS_RADIO_1 then FreqCorrection g
                        else FreqCorrection_2 g)
      in if primary then
           freq_start (FHSSconfig g)
             + (freq_spread g * ucast (FHSSsequence g (FHSSptrSynced g))
                  div FREQ_SPREAD_SCALE rc)
             - correction
         else
           freq_start (FHSSconfigDualBand g)
             + (freq_spread_DualBand g * ucast (FHSSsequence_DualBand g (FHSSptrSynced g))
                  div FREQ_SPREAD_SCALE rc)
             - correction)"

text \<open>
  Modelled from the spec: \<^verbatim>\<open>FHSSHopNextSynced\<close> is declared in the header but its body is not
  among the sources. Section 4.C: the first caller in the armed state advances
  \<open>cursor = (cursor + 1) mod sequence_length\<close>, disarms the barrier and returns the frequency
  at the new cursor; later callers of the same cycle return the frequency at the unchanged
  cursor. The cursor is the synced cursor, mirrored into \<^verbatim>\<open>FHSSptr\<close>. \<open>None\<close> is the undefined
  remainder by a sequence length of 0.
\<close>

definition FHSSHopNextSynced :: "radio_class \<Rightarrow> fhss_radio \<Rightarrow> fhss \<Rightarrow> (u32 \<times> fhss) option" where
  "FHSSHopNextSynced rc radio_id g =
     (if FHSSHopCycleArmed g \<noteq> 0 then
        (if FHSSgetSequenceCount g = 0 then None
         else
           (let p = next_index (FHSSptrSynced g) (FHSSgetSequenceCount g);
                g' = g\<lparr>FHSSptrSynced := p, FHSSptr := p, FHSSHopCycleArmed := 0\<rparr>
            in Some (synced_freq rc radio_id g', g')))
      else Some (synced_freq rc radio_id g, g))"

text \<open>A run of \<^verbatim>\<open>FHSSHopNextSynced\<close> calls, one per listed radio, collecting the results.\<close>

fun hop_calls :: "radio_class \<Rightarrow> fhss_radio list \<Rightarrow> fhss \<Rightarrow> (u32 list \<times> fhss) option" where
  "hop_calls rc [] g = Some ([], g)"
| "hop_calls rc (x # xs) g =
     (case FHSSHopNextSynced rc x g of
        None \<Rightarrow> None
      | Some (f, g') \<Rightarrow>
          (case hop_calls rc xs g' of
             None \<Rightarrow> None
           | Some (fs, g'') \<Rightarrow> Some (f # fs, g'')))"

text \<open>A 2.4 GHz plan of 80 channels in register units: a concrete state for instances.\<close>

definition example_fhss :: fhss where
  "example_fhss = \<lparr>FHSSptr = 5, FHSSptrSynced = 5, FreqCorrection = 0, FreqCorrection_2 = 0,
     primaryBandCount = 240, freq_spread = 1290589, FHSSsequence = (\<lambda>i. i mod 80),
     sync_channel = 0,
     FHSSconfig = \<lparr>domain = ''ISM2G4'', freq_start = 12101060, freq_stop = 12499328,
                    freq_count = 80, freq_center = 12300194\<rparr>,
     FHSSusePrimaryFreqBand = True, FHSSuseDualBand = False,
     secondaryBandCount = 0, freq_spread_DualBand = 0, FHSSsequence_DualBand = (\<lambda>i. 0),
     sync_channel_DualBand = 0,
     FHSSconfigDualBand = \<lparr>domain = [], freq_start = 0, freq_stop = 0,
                    freq_count = 0, freq_center = 0\<rparr>,
     FHSSHopCycleArmed = 0, FHSSSyncEpoch = 0\<rparr>"

section \<open>Anti-jam detector (anti\_jamming.cpp, anti\_jamming.h)\<close>

datatype aj_state = AJ_STATE_NOT_JAMMED | AJ_STATE_SUSPECT | AJ_STATE_JAMMED

datatype aj_window_mode = AJ_WINDOW_BY_COUNT | AJ_WINDOW_BY_TIME

text \<open>\<^verbatim>\<open>aj_config_t\<close>\<close>

record aj_config =
  window_size_packets :: u16
  window_duration_ms :: u32
  window_mode :: aj_window_mode
  jam_threshold_percent :: u8
  min_bad_packets :: u16
  consecutive_windows_to_jam :: u8
  jam_state_hold_time_ms :: u32
  min_time_between_reco_ms :: u32
  allow_group_switch_suggestions :: u8

text \<open>\<^verbatim>\<open>aj_hop_suggestion_t\<close>\<close>

record aj_hop_suggestion =
  recommend :: u8
  confidence :: u8
  suggest_group_switch :: u8
  hop_aggressiveness_hint :: u8
  preferred_slot_index :: u32
  has_preferred_slot :: u8

text \<open>\<^verbatim>\<open>aj_report_t\<close>; the fields carry the prefix \<open>rpt_\<close> to keep them apart from the context's.\<close>

record aj_report =
  rpt_state :: aj_state
  rpt_score :: u8
  rpt_recommend_hop :: u8
  rpt_confidence :: u8
  rpt_when :: aj_timestamp_ms
  rpt_hop_aggressiveness_hint :: u8

text \<open>\<^verbatim>\<open>aj_pkt_entry_t\<close>\<close>

record aj_pkt_entry =
  good :: u8
  ts :: aj_timestamp_ms

text \<open>
  \<^verbatim>\<open>struct aj_ctx_s\<close>. The trailing array \<^verbatim>\<open>entries\<close> is the ring storage inside the buffer the
  caller supplied: the list has one element per entry slot of that buffer, and an access
  outside the list is an access outside the buffer. \<open>hop_cb\<close> is a function pointer
  (\<open>None\<close> is \<^verbatim>\<open>NULL\<close>).
\<close>

record aj_ctx =
  cfg :: aj_config
  capacity :: u16
  count :: u16
  head :: u16
  bad_count :: u16
  window_start_ms :: aj_timestamp_ms
  last_now_ms :: aj_timestamp_ms
  state :: aj_state
  jam_streak :: u8
  last_jam_change_ms :: aj_timestamp_ms
  ext_jam_recent :: u8
  ext_jam_since_ms :: aj_timestamp_ms
  last_reco_ms :: aj_timestamp_ms
  last_report :: aj_report
  hop_cb :: "nat option"
  hop_cb_ctx :: nat
  entries :: "aj_pkt_entry list"

definition u16_min :: "u16 \<Rightarrow> u16 \<Rightarrow> u16" where
  "u16_min a b = (if a < b then a else b)"

definition u32_clamp :: "u32 \<Rightarrow> u32 \<Rightarrow> u32 \<Rightarrow> u32" where
  "u32_clamp x lo hi = (if x < lo then lo else if x > hi then hi else x)"

definition u8_clamp_u32_to_u8 :: "u32 \<Rightarrow> u8" where
  "u8_clamp_u32_to_u8 v = ucast (u32_clamp v 0 255)"

text \<open>
  The index of the oldest entry,
  \<^verbatim>\<open>(uint16_t)((ctx->head + ctx->capacity - ctx->count) % ctx->capacity)\<close>: the three fields are
  promoted to \<^verbatim>\<open>int\<close>, the remainder is C's truncating one, the result is cut to 16 bits.
\<close>

definition ring_tail :: "aj_ctx \<Rightarrow> u16" where
  "ring_tail ctx =
     of_int ((uint (head ctx) + uint (capacity ctx) - uint (count ctx)) smod uint (capacity ctx))"

text \<open>
  The loop of \<^verbatim>\<open>prune_old_by_time\<close>. \<open>None\<close> stands for undefined behaviour of the C code: a
  remainder by a capacity of 0, or a read of \<^verbatim>\<open>entries[tail]\<close> outside the buffer.
\<close>

function prune_loop :: "aj_ctx \<Rightarrow> aj_timestamp_ms \<Rightarrow> aj_ctx option" where
  "prune_loop ctx cutoff =
     (if count ctx > 0 then
        (if capacity ctx = 0 then None
         else if length (entries ctx) \<le> unat (ring_tail ctx) then None
         else if ts (entries ctx ! unat (ring_tail ctx)) \<ge> cutoff then Some ctx
         else
           prune_loop
             (ctx\<lparr>bad_count :=
                    (if good (entries ctx ! unat (ring_tail ctx)) = 0 \<and> bad_count ctx > 0
                     then bad_count ctx - 1 else bad_count ctx),
                  count := count ctx - 1\<rparr>)
             cutoff)
      else Some ctx)"
  by pat_completeness auto
termination
proof (relation "measure (\<lambda>(ctx, cutoff). unat (count ctx))")
  show "wf (measure (\<lambda>(ctx, cutoff). unat (count ctx)))" by simp
next
  fix ctx :: aj_ctx and cutoff :: aj_timestamp_ms
  assume "0 < count ctx"
  then have "unat (count ctx - 1) < unat (count ctx)"
    by (simp add: unat_minus_one word_neq_0_conv [symmetric] unat_gt_0)
  then show "((ctx\<lparr>bad_count :=
                    (if good (entries ctx ! unat (ring_tail ctx)) = 0 \<and> bad_count ctx > 0
                     then bad_count ctx - 1 else bad_count ctx),
                  count := count ctx - 1\<rparr>, cutoff), (ctx, cutoff))
             \<in> measure (\<lambda>(ctx, cutoff). unat (count ctx))"
    by simp
qed

declare prune_loop.simps [simp del]

definition prune_old_by_time :: "aj_ctx \<Rightarrow> aj_timestamp_ms \<Rightarrow> aj_ctx option" where
  "prune_old_by_time ctx now_ms =
     (if window_mode (cfg ctx) \<noteq> AJ_WINDOW_BY_TIME then Some ctx
      else
        (let dur = (if window_duration_ms (cfg ctx) \<noteq> 0 then window_duration_ms (cfg ctx) else 1);
             cutoff = (if now_ms > dur then now_ms - dur else 0)
         in prune_loop ctx cutoff))"

text \<open>\<^verbatim>\<open>calc_score\<close>: the three out-parameters as a triple (score, total, bad).\<close>

definition calc_score :: "aj_ctx \<Rightarrow> u8 \<times> u16 \<times> u16" where
  "calc_score ctx =
     (let tot = count ctx;
          bad = bad_count ctx;
          score =
            (if tot > 0 then
               (let pct = (ucast bad :: u32) * 100 div ucast tot;
                    pct' = (if ext_jam_recent ctx \<noteq> 0 then u32_clamp (pct + 10) 0 100 else pct)
                in (ucast pct' :: u8))
             else 0)
      in (score, tot, bad))"

definition is_window_jammy :: "aj_ctx \<Rightarrow> u8" where
  "is_window_jammy ctx =
     (case calc_score ctx of
        (score, tot, bad) \<Rightarrow>
          if bad < min_bad_packets (cfg ctx) then 0
          else if score \<ge> jam_threshold_percent (cfg ctx) then 1 else 0)"

definition on_window_boundary :: "aj_ctx \<Rightarrow> aj_timestamp_ms \<Rightarrow> aj_ctx" where
  "on_window_boundary ctx now_ms =
     (if is_window_jammy ctx \<noteq> 0 then
        (let c1 = (if jam_streak ctx < 255 then ctx\<lparr>jam_streak := jam_streak ctx + 1\<rparr> else ctx)
         in if jam_streak c1 \<ge> consecutive_windows_to_jam (cfg c1) then
              (if state c1 \<noteq> AJ_STATE_JAMMED
               then c1\<lparr>state := AJ_STATE_JAMMED, last_jam_change_ms := now_ms\<rparr>
               else c1)
            else
              (if state c1 = AJ_STATE_NOT_JAMMED
               then c1\<lparr>state := AJ_STATE_SUSPECT, last_jam_change_ms := now_ms\<rparr>
               else c1))
      else
        (let c1 = ctx\<lparr>jam_streak := 0\<rparr>
         in if state c1 = AJ_STATE_JAMMED then
              (if now_ms - last_jam_change_ms c1 \<ge> jam_state_hold_time_ms (cfg c1)
               then c1\<lparr>state := AJ_STATE_SUSPECT, last_jam_change_ms := now_ms\<rparr>
               else c1)
            else if state c1 = AJ_STATE_SUSPECT then
              (case calc_score c1 of
                 (score, tot, bad) \<Rightarrow>
                   if tot = 0
                      \<or> (ucast score :: u32) < ucast (jam_threshold_percent (cfg c1)) div 2
                   then c1\<lparr>state := AJ_STATE_NOT_JAMMED, last_jam_change_ms := now_ms\<rparr>
                   else c1)
            else c1))"

definition update_report :: "aj_ctx \<Rightarrow> aj_timestamp_ms \<Rightarrow> aj_ctx" where
  "update_report ctx now_ms =
     (case calc_score ctx of
        (score, tot, bad) \<Rightarrow>
          (let thr = jam_threshold_percent (cfg ctx);
               conf =
                 (if tot > 0 then
                    (let over = (if score > thr then (ucast score :: u32) - ucast thr else 0);
                         base = u32_clamp (ucast tot) 0 100;
                         c = base div 2 + over
                     in (ucast (u32_clamp c 0 100) :: u8))
                  else 0);
               hint = (ucast ((ucast score :: u32) * 255 div 100) :: u8);
               dt = now_ms - last_reco_ms ctx;
               reco =
                 (if dt \<ge> min_time_between_reco_ms (cfg ctx) then
                    (if state ctx = AJ_STATE_JAMMED then 1
                     else if state ctx = AJ_STATE_SUSPECT
                             \<and> score \<ge> (ucast (u32_clamp (ucast thr + 10) 0 100) :: u8)
                     then 1 else 0)
                  else 0)
           in ctx\<lparr>last_report :=
                    \<lparr>rpt_state = state ctx, rpt_score = score, rpt_recommend_hop = reco,
                     rpt_confidence = conf, rpt_when = now_ms,
                     rpt_hop_aggressiveness_hint = hint\<rparr>\<rparr>))"

text \<open>
  \<^verbatim>\<open>maybe_fire_hop_callback\<close>: the second component is the suggestion handed to the callback,
  when the callback was called. The callback itself is foreign code; the one this repository
  registers does not touch the context.
\<close>

definition maybe_fire_hop_callback ::
  "aj_ctx \<Rightarrow> aj_timestamp_ms \<Rightarrow> aj_ctx \<times> aj_hop_suggestion option" where
  "maybe_fire_hop_callback ctx now_ms =
     (if hop_cb ctx = None then (ctx, None)
      else if rpt_recommend_hop (last_report ctx) = 0 then (ctx, None)
      else
        (ctx\<lparr>last_reco_ms := now_ms\<rparr>,
         Some \<lparr>recommend = 1,
               confidence = rpt_confidence (last_report ctx),
               suggest_group_switch =
                 (if allow_group_switch_suggestions (cfg ctx) \<noteq> 0
                     \<and> (rpt_score (last_report ctx) \<ge> 80 \<or> ext_jam_recent ctx \<noteq> 0)
                  then 1 else 0),
               hop_aggressiveness_hint = rpt_hop_aggressiveness_hint (last_report ctx),
               preferred_slot_index = 0,
               has_preferred_slot = 0\<rparr>))"

definition aj_internal_apply_cfg :: "aj_ctx \<Rightarrow> aj_config \<Rightarrow> aj_ctx" where
  "aj_internal_apply_cfg ctx c =
     (let c0 = ctx\<lparr>cfg := c\<rparr>;
          c1 = c0\<lparr>capacity :=
                    (if window_size_packets (cfg c0) = 0 then 1 else window_size_packets (cfg c0))\<rparr>;
          c2 = (if window_mode (cfg c1) = AJ_WINDOW_BY_TIME \<and> window_duration_ms (cfg c1) = 0
                then c1\<lparr>cfg := (cfg c1)\<lparr>window_duration_ms := 1000\<rparr>\<rparr> else c1);
          c3 = (if min_time_between_reco_ms (cfg c2) = 0
                then c2\<lparr>cfg := (cfg c2)\<lparr>min_time_between_reco_ms := 500\<rparr>\<rparr> else c2);
          c4 = (if consecutive_windows_to_jam (cfg c3) = 0
                then c3\<lparr>cfg := (cfg c3)\<lparr>consecutive_windows_to_jam := 1\<rparr>\<rparr> else c3);
          c5 = (if jam_threshold_percent (cfg c4) > 100
                then c4\<lparr>cfg := (cfg c4)\<lparr>jam_threshold_percent := 100\<rparr>\<rparr> else c4)
      in if jam_threshold_percent (cfg c5) < 1
         then c5\<lparr>cfg := (cfg c5)\<lparr>jam_threshold_percent := 1\<rparr>\<rparr> else c5)"

text \<open>
  \<^verbatim>\<open>aj_init\<close>. The buffer is measured in entry slots: \<open>slots\<close> is the number of ring entries
  that fit into the buffer behind the header, so \<^verbatim>\<open>buffer_size < need\<close> is
  \<open>slots < capacity\<close>. The whole buffer is zeroed. \<open>None\<close> is the \<^verbatim>\<open>NULL\<close> result.
\<close>

definition aj_init :: "nat \<Rightarrow> aj_config \<Rightarrow> aj_ctx option" where
  "aj_init slots c =
     (if slots < unat (if window_size_packets c = 0 then 1 else window_size_packets c) then None
      else
        Some
          ((aj_internal_apply_cfg
              \<lparr>cfg = c, capacity = 0, count = 0, head = 0, bad_count = 0,
               window_start_ms = 0, last_now_ms = 0, state = AJ_STATE_NOT_JAMMED,
               jam_streak = 0, last_jam_change_ms = 0, ext_jam_recent = 0,
               ext_jam_since_ms = 0, last_reco_ms = 0,
               last_report =
                 \<lparr>rpt_state = AJ_STATE_NOT_JAMMED, rpt_score = 0, rpt_recommend_hop = 0,
                  rpt_confidence = 0, rpt_when = 0, rpt_hop_aggressiveness_hint = 0\<rparr>,
               hop_cb = None, hop_cb_ctx = 0,
               entries = replicate slots \<lparr>good = 0, ts = 0\<rparr>\<rparr>
              c)
             \<lparr>count := 0, head := 0, bad_count := 0,
              window_start_ms := 0, last_now_ms := 0, state := AJ_STATE_NOT_JAMMED,
              jam_streak := 0, last_jam_change_ms := 0, ext_jam_recent := 0,
              ext_jam_since_ms := 0, last_reco_ms := 0,
              last_report :=
                \<lparr>rpt_state = AJ_STATE_NOT_JAMMED, rpt_score = 0, rpt_recommend_hop = 0,
                 rpt_confidence = 0, rpt_when = 0, rpt_hop_aggressiveness_hint = 0\<rparr>,
              hop_cb := None, hop_cb_ctx := 0\<rparr>))"

definition aj_configure :: "aj_ctx \<Rightarrow> aj_config \<Rightarrow> aj_ctx" where
  "aj_configure ctx c =
     (let old_capacity = capacity ctx;
          c1 = aj_internal_apply_cfg ctx c;
          c2 = (if capacity c1 \<noteq> old_capacity
                then c1\<lparr>count := 0, head := 0, bad_count := 0\<rparr> else c1)
      in c2\<lparr>window_start_ms := last_now_ms c2, jam_streak := 0\<rparr>)"

definition aj_reset :: "aj_ctx \<Rightarrow> aj_ctx" where
  "aj_reset ctx =
     ctx\<lparr>count := 0, head := 0, bad_count := 0,
         window_start_ms := last_now_ms ctx, state := AJ_STATE_NOT_JAMMED,
         jam_streak := 0, last_jam_change_ms := last_now_ms ctx,
         ext_jam_recent := 0, ext_jam_since_ms := 0, last_reco_ms := 0,
         last_report :=
           \<lparr>rpt_state = AJ_STATE_NOT_JAMMED, rpt_score = 0, rpt_recommend_hop = 0,
            rpt_confidence = 0, rpt_when = last_now_ms ctx,
            rpt_hop_aggressiveness_hint = 0\<rparr>\<rparr>"

text \<open>
  The middle of \<^verbatim>\<open>aj_register_packet\<close>, from "If full, we will overwrite at head" through
  "Insert at head" to "Advance head". \<open>None\<close> is undefined behaviour: the access to
  \<^verbatim>\<open>entries[head]\<close> outside the buffer, or the remainder by a capacity of 0. The increment
  \<^verbatim>\<open>(ctx->head + 1u) % ctx->capacity\<close> is computed in \<^verbatim>\<open>unsigned int\<close>, where the sum cannot
  wrap.
\<close>

definition ring_insert :: "aj_ctx \<Rightarrow> u8 \<Rightarrow> aj_timestamp_ms \<Rightarrow> aj_ctx option" where
  "ring_insert c2 good_flag time_ms =
     (if length (entries c2) \<le> unat (head c2) then None
      else
        (let c3 = (if count c2 = capacity c2 then
                     c2\<lparr>bad_count :=
                          (if good (entries c2 ! unat (head c2)) = 0 \<and> bad_count c2 > 0
                           then bad_count c2 - 1 else bad_count c2)\<rparr>
                   else c2\<lparr>count := count c2 + 1\<rparr>);
             e = \<lparr>good = bool01 good_flag, ts = time_ms\<rparr>;
             c4 = c3\<lparr>entries := (entries c3)[unat (head c3) := e]\<rparr>;
             c5 = (if good e = 0 then c4\<lparr>bad_count := bad_count c4 + 1\<rparr> else c4)
         in if capacity c5 = 0 then None
            else Some (c5\<lparr>head := of_nat ((unat (head c5) + 1) mod unat (capacity c5))\<rparr>)))"

text \<open>
  \<^verbatim>\<open>aj_register_packet\<close>: prune, insert, window boundary in BY\_COUNT mode, report, callback.
  \<open>None\<close> is undefined behaviour in the pruning loop or in the insertion.
\<close>

definition aj_register_packet ::
  "aj_ctx \<Rightarrow> u8 \<Rightarrow> aj_timestamp_ms \<Rightarrow> (aj_ctx \<times> aj_hop_suggestion option) option" where
  "aj_register_packet ctx good_flag time_ms =
     (case prune_old_by_time (ctx\<lparr>last_now_ms := time_ms\<rparr>) time_ms of
        None \<Rightarrow> None
      | Some c2 \<Rightarrow>
          (case ring_insert c2 good_flag time_ms of
             None \<Rightarrow> None
           | Some c6 \<Rightarrow>
               (let c7 = (if window_mode (cfg c6) = AJ_WINDOW_BY_COUNT
                             \<and> count c6 = capacity c6 \<and> head c6 = 0
                          then on_window_boundary c6 time_ms else c6)
                in Some (maybe_fire_hop_callback (update_report c7 time_ms) time_ms))))"

definition aj_register_external_jam ::
  "aj_ctx \<Rightarrow> aj_timestamp_ms \<Rightarrow> (aj_ctx \<times> aj_hop_suggestion option) option" where
  "aj_register_external_jam ctx time_ms =
     (case prune_old_by_time
             (ctx\<lparr>last_now_ms := time_ms, ext_jam_recent := 1, ext_jam_since_ms := time_ms\<rparr>)
             time_ms of
        None \<Rightarrow> None
      | Some c2 \<Rightarrow> Some (maybe_fire_hop_callback (update_report c2 time_ms) time_ms))"

text \<open>
  \<^verbatim>\<open>aj_tick\<close> consists of three blocks after \<^verbatim>\<open>ctx->last_now_ms = now_ms\<close>; the first two are
  named here after their comments in the source. First block: "BY\_TIME: prune old packets and
  check for window boundary". \<open>None\<close> is undefined behaviour inside the pruning loop.
\<close>

definition tick_time_window :: "aj_ctx \<Rightarrow> aj_timestamp_ms \<Rightarrow> aj_ctx option" where
  "tick_time_window ctx now_ms =
     (if window_mode (cfg ctx) = AJ_WINDOW_BY_TIME then
        (case prune_old_by_time ctx now_ms of
           None \<Rightarrow> None
         | Some c2 \<Rightarrow>
             (let dur = (if window_duration_ms (cfg c2) \<noteq> 0
                         then window_duration_ms (cfg c2) else 1)
              in if now_ms - window_start_ms c2 \<ge> dur then
                   (let elapsed = now_ms - window_start_ms c2;
                        steps = elapsed div dur;
                        steps' = (if steps = 0 then 1 else steps)
                    in Some (on_window_boundary
                               (c2\<lparr>window_start_ms := window_start_ms c2 + steps' * dur\<rparr>)
                               now_ms))
                 else Some c2))
      else Some ctx)"

text \<open>Second block: "Age-out external jam flag".\<close>

definition tick_age_ext_jam :: "aj_ctx \<Rightarrow> aj_timestamp_ms \<Rightarrow> aj_ctx" where
  "tick_age_ext_jam ctx now_ms =
     (if ext_jam_recent ctx \<noteq> 0 then
        (let age = now_ms - ext_jam_since_ms ctx;
             limit = (if window_mode (cfg ctx) = AJ_WINDOW_BY_TIME
                      then (if window_duration_ms (cfg ctx) \<noteq> 0
                            then window_duration_ms (cfg ctx) else 1000)
                      else 1000)
         in if age \<ge> limit then ctx\<lparr>ext_jam_recent := 0\<rparr> else ctx)
      else ctx)"

text \<open>Third block: "Refresh report"; the tick never calls the hop callback.\<close>

definition aj_tick :: "aj_ctx \<Rightarrow> aj_timestamp_ms \<Rightarrow> aj_ctx option" where
  "aj_tick ctx now_ms =
     (case tick_time_window (ctx\<lparr>last_now_ms := now_ms\<rparr>) now_ms of
        None \<Rightarrow> None
      | Some c3 \<Rightarrow> Some (update_report (tick_age_ext_jam c3 now_ms) now_ms))"

definition aj_get_report :: "aj_ctx \<Rightarrow> aj_report" where
  "aj_get_report ctx = last_report ctx"

definition aj_is_jammed :: "aj_ctx \<Rightarrow> u8" where
  "aj_is_jammed ctx = (if state ctx = AJ_STATE_JAMMED then 1 else 0)"

definition aj_set_hop_callback :: "aj_ctx \<Rightarrow> nat option \<Rightarrow> nat \<Rightarrow> aj_ctx" where
  "aj_set_hop_callback ctx f user_ctx = ctx\<lparr>hop_cb := f, hop_cb_ctx := user_ctx\<rparr>"

text \<open>
  The calls that feed the detector, as one family; a run applies a list of calls in order
  and collects, for every invocation of the hop callback, the timestamp of the call that
  fired it and the suggestion passed. A run is \<open>None\<close> when a call of it is undefined.
\<close>

datatype aj_call =
  Register_packet u8 aj_timestamp_ms
| Register_external_jam aj_timestamp_ms
| Tick aj_timestamp_ms
| Reset
| Configure aj_config
| Set_hop_callback "nat option" nat

fun aj_apply ::
  "aj_call \<Rightarrow> aj_ctx \<Rightarrow> (aj_ctx \<times> (aj_timestamp_ms \<times> aj_hop_suggestion) list) option" where
  "aj_apply (Register_packet g t) ctx =
     (case aj_register_packet ctx g t of
        None \<Rightarrow> None
      | Some (c, fired) \<Rightarrow> Some (c, case fired of None \<Rightarrow> [] | Some s \<Rightarrow> [(t, s)]))"
| "aj_apply (Register_external_jam t) ctx =
     (case aj_register_external_jam ctx t of
        None \<Rightarrow> None
      | Some (c, fired) \<Rightarrow> Some (c, case fired of None \<Rightarrow> [] | Some s \<Rightarrow> [(t, s)]))"
| "aj_apply (Tick t) ctx =
     (case aj_tick ctx t of None \<Rightarrow> None | Some c \<Rightarrow> Some (c, []))"
| "aj_apply Reset ctx = Some (aj_reset ctx, [])"
| "aj_apply (Configure c) ctx = Some (aj_configure ctx c, [])"
| "aj_apply (Set_hop_callback f u) ctx = Some (aj_set_hop_callback ctx f u, [])"

fun aj_run ::
  "aj_ctx \<Rightarrow> aj_call list \<Rightarrow> (aj_ctx \<times> (aj_timestamp_ms \<times> aj_hop_suggestion) list) option" where
  "aj_run ctx [] = Some (ctx, [])"
| "aj_run ctx (x # xs) =
     (case aj_apply x ctx of
        None \<Rightarrow> None
      | Some (ctx', fired) \<Rightarrow>
          (case aj_run ctx' xs of
             None \<Rightarrow> None
           | Some (ctx'', fires) \<Rightarrow> Some (ctx'', fired @ fires)))"

text \<open>
  The entries currently in the ring, oldest first: the \<open>count\<close> slots that end just before
  \<open>head\<close>, read modulo \<open>capacity\<close>. Slot 0 of the ring is the tail the code computes.
\<close>

definition ring_slot :: "aj_ctx \<Rightarrow> nat \<Rightarrow> nat" where
  "ring_slot ctx k =
     (unat (head ctx) + unat (capacity ctx) - unat (count ctx) + k) mod unat (capacity ctx)"

definition ring_entries :: "aj_ctx \<Rightarrow> aj_pkt_entry list" where
  "ring_entries ctx = map (\<lambda>k. entries ctx ! ring_slot ctx k) [0..<unat (count ctx)]"

definition bad_in_ring :: "aj_ctx \<Rightarrow> nat" where
  "bad_in_ring ctx = length (filter (\<lambda>e. good e = 0) (ring_entries ctx))"

text \<open>
  The ring is consistent: the indices are within the capacity, every slot in use lies inside
  the buffer, and \<open>bad_count\<close> is the number of bad entries in the ring.
\<close>

definition ring_ok :: "aj_ctx \<Rightarrow> bool" where
  "ring_ok ctx \<longleftrightarrow>
     capacity ctx \<noteq> 0 \<and> head ctx < capacity ctx \<and> count ctx \<le> capacity ctx
     \<and> list_all (\<lambda>k. ring_slot ctx k < length (entries ctx)) [0..<unat (count ctx)]
     \<and> unat (bad_count ctx) = bad_in_ring ctx"

text \<open>A consistent ring whose capacity fits the buffer, as \<^verbatim>\<open>aj_init\<close> produces it.\<close>

definition aj_wf :: "aj_ctx \<Rightarrow> bool" where
  "aj_wf ctx \<longleftrightarrow> ring_ok ctx \<and> unat (capacity ctx) \<le> length (entries ctx)"

text \<open>
  A call respects the buffer: a reconfiguration asks for no more ring entries than the buffer
  has slots (the rule the comment in \<^verbatim>\<open>aj_configure\<close> gives to callers).
\<close>

fun fits_buffer :: "nat \<Rightarrow> aj_call \<Rightarrow> bool" where
  "fits_buffer slots (Configure c) = (unat (window_size_packets c) \<le> slots)"
| "fits_buffer slots _ = True"

text \<open>The two calls that can fire the hop callback, and the timestamps a run is given.\<close>

fun is_register :: "aj_call \<Rightarrow> bool" where
  "is_register (Register_packet g t) = True"
| "is_register (Register_external_jam t) = True"
| "is_register _ = False"

fun call_times :: "aj_call list \<Rightarrow> aj_timestamp_ms list" where
  "call_times [] = []"
| "call_times (Register_packet g t # xs) = t # call_times xs"
| "call_times (Register_external_jam t # xs) = t # call_times xs"
| "call_times (Tick t # xs) = t # call_times xs"
| "call_times (x # xs) = call_times xs"

text \<open>Consecutive timestamps of a list lie at least \<open>d\<close> milliseconds apart.\<close>

fun spaced :: "nat \<Rightarrow> aj_timestamp_ms list \<Rightarrow> bool" where
  "spaced d (t1 # t2 # rest) = (unat t1 + d \<le> unat t2 \<and> spaced d (t2 # rest))"
| "spaced d _ = True"

text \<open>
  The configuration of the "detection threshold" scenario; the two fields the scenario
  leaves open are parameters.
\<close>

definition scenario_cfg :: "u32 \<Rightarrow> u8 \<Rightarrow> aj_config" where
  "scenario_cfg duration allow =
     \<lparr>window_size_packets = 100, window_duration_ms = duration,
      window_mode = AJ_WINDOW_BY_COUNT, jam_threshold_percent = 30, min_bad_packets = 5,
      consecutive_windows_to_jam = 1, jam_state_hold_time_ms = 0,
      min_time_between_reco_ms = 0, allow_group_switch_suggestions = allow\<rparr>"

text \<open>A list of packets (flag, timestamp) as a run of \<^verbatim>\<open>aj_register_packet\<close> calls.\<close>

definition register_all :: "(u8 \<times> aj_timestamp_ms) list \<Rightarrow> aj_call list" where
  "register_all pkts = map (\<lambda>(g, t). Register_packet g t) pkts"

definition bad_packets :: "(u8 \<times> aj_timestamp_ms) list \<Rightarrow> nat" where
  "bad_packets pkts = length (filter (\<lambda>(g, t). g = 0) pkts)"

text \<open>
  The pruning loop has nothing left to remove: the ring is empty, or its oldest entry is not
  older than the cutoff.
\<close>

definition prune_stable :: "aj_ctx \<Rightarrow> aj_timestamp_ms \<Rightarrow> bool" where
  "prune_stable ctx cutoff \<longleftrightarrow>
     count ctx = 0
     \<or> (capacity ctx \<noteq> 0 \<and> unat (ring_tail ctx) < length (entries ctx)
        \<and> cutoff \<le> ts (entries ctx ! unat (ring_tail ctx)))"

text \<open>
  The scenario's context while its first window fills: \<open>k\<close> packets registered, \<open>b\<close> of them
  bad, no window boundary seen yet, a hop callback registered.
\<close>

definition scenario_filling :: "u32 \<Rightarrow> u8 \<Rightarrow> nat \<Rightarrow> nat \<Rightarrow> aj_ctx \<Rightarrow> bool" where
  "scenario_filling duration allow k b c \<longleftrightarrow>
     cfg c = (scenario_cfg duration allow)\<lparr>min_time_between_reco_ms := 500\<rparr>
     \<and> capacity c = 100 \<and> unat (count c) = k \<and> unat (head c) = k \<and> unat (bad_count c) = b
     \<and> state c = AJ_STATE_NOT_JAMMED \<and> jam_streak c = 0 \<and> last_reco_ms c = 0
     \<and> ext_jam_recent c = 0 \<and> hop_cb c \<noteq> None \<and> 100 \<le> length (entries c)"

text \<open>
  Concrete inputs for the scenario: 100 packets, the first three of every ten bad, one
  packet per millisecond (\<open>early_packets\<close>) or one every ten milliseconds (\<open>late_packets\<close>).
\<close>

definition early_packets :: "(u8 \<times> aj_timestamp_ms) list" where
  "early_packets = map (\<lambda>i. (if i mod 10 < 3 then 0 else 1, of_nat (i + 1))) [0..<100]"

definition late_packets :: "(u8 \<times> aj_timestamp_ms) list" where
  "late_packets = map (\<lambda>i. (if i mod 10 < 3 then 0 else 1, of_nat (10 * (i + 1)))) [0..<100]"

text \<open>
  The scenario from \<^verbatim>\<open>aj_init\<close> on: a buffer of 100 slots, a hop callback registered, then
  the packets.
\<close>

definition scenario_outcome ::
  "(u8 \<times> aj_timestamp_ms) list
     \<Rightarrow> (aj_ctx \<times> (aj_timestamp_ms \<times> aj_hop_suggestion) list) option" where
  "scenario_outcome pkts =
     (case aj_init 100 (scenario_cfg 1000 0) of
        None \<Rightarrow> None
      | Some c \<Rightarrow> aj_run (aj_set_hop_callback c (Some 1) 0) (register_all pkts))"

text \<open>Two small configurations and contexts for instances: a time window and a count window.\<close>

definition example_cfg :: aj_config where
  "example_cfg =
     \<lparr>window_size_packets = 4, window_duration_ms = 50, window_mode = AJ_WINDOW_BY_TIME,
      jam_threshold_percent = 30, min_bad_packets = 1, consecutive_windows_to_jam = 1,
      jam_state_hold_time_ms = 0, min_time_between_reco_ms = 20,
      allow_group_switch_suggestions = 1\<rparr>"

definition example_calls :: "aj_call list" where
  "example_calls =
     [Set_hop_callback (Some 1) 0, Register_packet 0 10, Register_packet 1 20,
      Register_packet 0 30, Register_packet 0 40, Register_packet 0 45, Tick 75,
      Register_external_jam 80, Configure (example_cfg\<lparr>window_size_packets := 5\<rparr>),
      Register_packet 0 90, Register_packet 0 95, Reset, Register_packet 0 99]"

definition example_busy_ctx :: aj_ctx where
  "example_busy_ctx =
     \<lparr>cfg = example_cfg, capacity = 4, count = 3, head = 3, bad_count = 2,
      window_start_ms = 0, last_now_ms = 30, state = AJ_STATE_NOT_JAMMED, jam_streak = 0,
      last_jam_change_ms = 0, ext_jam_recent = 1, ext_jam_since_ms = 20, last_reco_ms = 0,
      last_report =
        \<lparr>rpt_state = AJ_STATE_NOT_JAMMED, rpt_score = 76, rpt_recommend_hop = 0,
         rpt_confidence = 47, rpt_when = 30, rpt_hop_aggressiveness_hint = 193\<rparr>,
      hop_cb = Some 1, hop_cb_ctx = 0,
      entries = [\<lparr>good = 0, ts = 10\<rparr>, \<lparr>good = 1, ts = 20\<rparr>, \<lparr>good = 0, ts = 30\<rparr>,
                 \<lparr>good = 0, ts = 0\<rparr>, \<lparr>good = 0, ts = 0\<rparr>]\<rparr>"

definition example_count_ctx :: aj_ctx where
  "example_count_ctx =
     \<lparr>cfg = example_cfg\<lparr>window_size_packets := 2, window_mode := AJ_WINDOW_BY_COUNT\<rparr>,
      capacity = 2, count = 0, head = 0, bad_count = 0,
      window_start_ms = 0, last_now_ms = 0, state = AJ_STATE_NOT_JAMMED, jam_streak = 0,
      last_jam_change_ms = 0, ext_jam_recent = 0, ext_jam_since_ms = 0, last_reco_ms = 0,
      last_report =
        \<lparr>rpt_state = AJ_STATE_NOT_JAMMED, rpt_score = 0, rpt_recommend_hop = 0,
         rpt_confidence = 0, rpt_when = 0, rpt_hop_aggressiveness_hint = 0\<rparr>,
      hop_cb = Some 1, hop_cb_ctx = 0,
      entries = [\<lparr>good = 0, ts = 0\<rparr>, \<lparr>good = 0, ts = 0\<rparr>, \<lparr>good = 0, ts = 0\<rparr>]\<rparr>"

definition example_register_calls :: "aj_call list" where
  "example_register_calls =
     [Register_packet 0 10, Register_packet 0 20, Register_packet 1 30,
      Register_external_jam 45, Register_packet 0 50, Register_packet 1 70]"

text \<open>The contexts \<^verbatim>\<open>aj_init\<close> returns for the scenario and for the time-window example.\<close>

definition scenario_init_ctx :: aj_ctx where
  "scenario_init_ctx =
     \<lparr>cfg = (scenario_cfg 1000 0)\<lparr>min_time_between_reco_ms := 500\<rparr>,
      capacity = 100, count = 0, head = 0, bad_count = 0,
      window_start_ms = 0, last_now_ms = 0, state = AJ_STATE_NOT_JAMMED, jam_streak = 0,
      last_jam_change_ms = 0, ext_jam_recent = 0, ext_jam_since_ms = 0, last_reco_ms = 0,
      last_report =
        \<lparr>rpt_state = AJ_STATE_NOT_JAMMED, rpt_score = 0, rpt_recommend_hop = 0,
         rpt_confidence = 0, rpt_when = 0, rpt_hop_aggressiveness_hint = 0\<rparr>,
      hop_cb = None, hop_cb_ctx = 0,
      entries = replicate 100 \<lparr>good = 0, ts = 0\<rparr>\<rparr>"

definition example_init_ctx :: aj_ctx where
  "example_init_ctx =
     \<lparr>cfg = example_cfg, capacity = 4, count = 0, head = 0, bad_count = 0,
      window_start_ms = 0, last_now_ms = 0, state = AJ_STATE_NOT_JAMMED, jam_streak = 0,
      last_jam_change_ms = 0, ext_jam_recent = 0, ext_jam_since_ms = 0, last_reco_ms = 0,
      last_report =
        \<lparr>rpt_state = AJ_STATE_NOT_JAMMED, rpt_score = 0, rpt_recommend_hop = 0,
         rpt_confidence = 0, rpt_when = 0, rpt_hop_aggressiveness_hint = 0\<rparr>,
      hop_cb = None, hop_cb_ctx = 0,
      entries = replicate 5 \<lparr>good = 0, ts = 0\<rparr>\<rparr>"

section \<open>Properties of the mode switch\<close>

lemmas aj_switch_defs =
  aj_switch_set_enabled_def aj_switch_set_mode_local_def
  aj_switch_set_mode_from_controller_def aj_switch_request_enable_from_controller_def
  notify_if_changed_def switch_changed_def

subsection \<open>The range test\<close>

text \<open>
  The signed reading of a mode object agrees with the unsigned one up to 2147483647 and is
  negative above; so the range test of the setters rejects exactly the values
  3, ..., 2147483647.
\<close>

lemma sint_mode_nonneg:
  fixes m :: aj_switch_mode
  assumes "m \<le> 0x7FFFFFFF"
  shows "sint m = uint m"
proof -
  have "uint m \<le> 0x7FFFFFFF"
    using assms by (simp add: word_le_def)
  then have hi: "uint m < 2 ^ 31"
    by simp
  have lo: "- (2 ^ 31) \<le> uint m"
    by (rule order_trans [of _ 0]) simp_all
  have "signed_take_bit 31 (uint m) = uint m"
    using lo hi by (rule signed_take_bit_int_eq_self)
  then show ?thesis
    by (simp add: sint_uint)
qed

lemma sint_mode_neg:
  fixes m :: aj_switch_mode
  assumes "\<not> m \<le> 0x7FFFFFFF"
  shows "sint m < 0"
proof -
  have "\<not> uint m \<le> 0x7FFFFFFF"
    using assms by (simp add: word_le_def)
  then have big: "2 ^ 31 \<le> uint m"
    by simp
  have "uint m < 2 ^ LENGTH(32)"
    by (rule uint_lt2p)
  then have top: "uint m < 2 ^ Suc 31"
    by simp
  have "signed_take_bit 31 (uint m) \<le> uint m - 2 ^ Suc 31"
    using big by (rule signed_take_bit_int_less_eq)
  with top have "signed_take_bit 31 (uint m) < 0"
    by linarith
  then show ?thesis
    by (simp add: sint_uint)
qed

lemma range_test_iff:
  "(sint AJ_SWITCH_MODE_HIGH < sint m) = mode_above_high m"
proof (cases "m \<le> 0x7FFFFFFF")
  case True
  then show ?thesis
    by (simp add: sint_mode_nonneg mode_above_high_def AJ_SWITCH_MODE_HIGH_def word_less_def)
next
  case False
  from sint_mode_neg [OF False] have "\<not> sint AJ_SWITCH_MODE_HIGH < sint m"
    by (simp add: AJ_SWITCH_MODE_HIGH_def)
  with False show ?thesis
    by (simp add: mode_above_high_def)
qed

lemma range_test_enumerator:
  assumes "m \<le> AJ_SWITCH_MODE_HIGH"
  shows "\<not> sint AJ_SWITCH_MODE_HIGH < sint m"
  using assms by (simp add: range_test_iff mode_above_high_def not_less [symmetric])

subsection \<open>Notification and return codes\<close>

text \<open>
  Claim C5, as stated, fails: with \<open>controller_only = 1\<close> a local mode request that names the
  mode already active is answered \<^verbatim>\<open>AJ_SW_RET_DENIED\<close>, not \<^verbatim>\<open>AJ_SW_RET_NOCHANGE\<close>, because
  the policy test comes before the equality test.
\<close>

theorem set_equal_value_not_nochange:
  "mode \<lparr>enabled = 0, mode = AJ_SWITCH_MODE_AUTO, controller_only = 1, last_change_ms = 0,
         cb = Some 0, cb_ctx = 0\<rparr> = AJ_SWITCH_MODE_AUTO
   \<and> fst (aj_switch_set_mode_local
            (Some \<lparr>enabled = 0, mode = AJ_SWITCH_MODE_AUTO, controller_only = 1,
                   last_change_ms = 0, cb = Some 0, cb_ctx = 0\<rparr>)
            AJ_SWITCH_MODE_AUTO 5) \<noteq> AJ_SW_RET_NOCHANGE"
  by (simp add: aj_switch_defs AJ_SWITCH_MODE_AUTO_def AJ_SWITCH_MODE_HIGH_def)

text \<open>
  Claim C5 (amended): with a notify callback registered, a set-operation invokes the callback
  if and only if it changed \<open>enabled\<close> or \<open>mode\<close>. A set call whose argument equals the current
  value leaves the context as it is and never fires notify; it returns \<^verbatim>\<open>NOCHANGE\<close>, except that
  \<^verbatim>\<open>aj_switch_set_mode_local\<close> under controller-only returns \<^verbatim>\<open>DENIED\<close> (and a mode setter handed
  a mode from 3 to 2147483647, which the range test rejects, returns \<^verbatim>\<open>INVALID\<close>).
\<close>

theorem notify_iff_changed:
  assumes "cb ctx \<noteq> None"
  shows "((snd (snd (aj_switch_apply op ctx)) \<noteq> [])
            = switch_changed ctx (fst (snd (aj_switch_apply op ctx))))
       \<and> (call_equals_current op ctx \<longrightarrow>
            snd (snd (aj_switch_apply op ctx)) = []
          \<and> fst (snd (aj_switch_apply op ctx)) = Some ctx
          \<and> fst (aj_switch_apply op ctx) =
              (if mode_arg_invalid op then AJ_SW_RET_INVALID
               else if is_local_mode_call op \<and> controller_only ctx \<noteq> 0 then AJ_SW_RET_DENIED
               else AJ_SW_RET_NOCHANGE))"
  using assms
  by (cases op) (auto simp: aj_switch_defs range_test_iff Let_def split: option.splits)

theorem notify_iff_changed_witness:
  "cb \<lparr>enabled = 1, mode = AJ_SWITCH_MODE_LOW, controller_only = 0, last_change_ms = 7,
       cb = Some 0, cb_ctx = 0\<rparr> \<noteq> None
   \<and> call_equals_current (Set_enabled 1 9)
        \<lparr>enabled = 1, mode = AJ_SWITCH_MODE_LOW, controller_only = 0, last_change_ms = 7,
         cb = Some 0, cb_ctx = 0\<rparr>
   \<and> aj_switch_apply (Set_enabled 1 9)
        \<lparr>enabled = 1, mode = AJ_SWITCH_MODE_LOW, controller_only = 0, last_change_ms = 7,
         cb = Some 0, cb_ctx = 0\<rparr>
      = (AJ_SW_RET_NOCHANGE,
         Some \<lparr>enabled = 1, mode = AJ_SWITCH_MODE_LOW, controller_only = 0, last_change_ms = 7,
               cb = Some 0, cb_ctx = 0\<rparr>, [])
   \<and> snd (snd (aj_switch_apply (Set_mode_from_controller AJ_SWITCH_MODE_HIGH 9)
        \<lparr>enabled = 1, mode = AJ_SWITCH_MODE_LOW, controller_only = 0, last_change_ms = 7,
         cb = Some 0, cb_ctx = 0\<rparr>)) \<noteq> []
   \<and> switch_changed
        \<lparr>enabled = 1, mode = AJ_SWITCH_MODE_LOW, controller_only = 0, last_change_ms = 7,
         cb = Some 0, cb_ctx = 0\<rparr>
        (fst (snd (aj_switch_apply (Set_mode_from_controller AJ_SWITCH_MODE_HIGH 9)
           \<lparr>enabled = 1, mode = AJ_SWITCH_MODE_LOW, controller_only = 0, last_change_ms = 7,
            cb = Some 0, cb_ctx = 0\<rparr>)))"
  using notify_iff_changed
    [of "\<lparr>enabled = 1, mode = AJ_SWITCH_MODE_LOW, controller_only = 0, last_change_ms = 7,
          cb = Some 0, cb_ctx = 0\<rparr>" "Set_enabled 1 9"]
    notify_iff_changed
    [of "\<lparr>enabled = 1, mode = AJ_SWITCH_MODE_LOW, controller_only = 0, last_change_ms = 7,
          cb = Some 0, cb_ctx = 0\<rparr>" "Set_mode_from_controller AJ_SWITCH_MODE_HIGH 9"]
  by (simp add: aj_switch_defs bool01_def mode_above_high_def
      AJ_SWITCH_MODE_LOW_def AJ_SWITCH_MODE_HIGH_def)

text \<open>
  Claim C6, as stated, fails for a requested mode outside AUTO/LOW/HIGH: the range test comes
  first, and the call returns \<^verbatim>\<open>AJ_SW_RET_INVALID\<close> although \<open>controller_only = 1\<close>.
\<close>

theorem set_mode_local_locked_not_denied:
  "fst (aj_switch_set_mode_local
          (Some \<lparr>enabled = 0, mode = AJ_SWITCH_MODE_AUTO, controller_only = 1,
                 last_change_ms = 0, cb = Some 0, cb_ctx = 0\<rparr>)
          3 5) \<noteq> AJ_SW_RET_DENIED"
  by (simp add: aj_switch_defs AJ_SWITCH_MODE_HIGH_def)

text \<open>
  Claim C6 (amended): for a context with \<open>controller_only\<close> set and a requested mode within
  AUTO/LOW/HIGH, \<^verbatim>\<open>aj_switch_set_mode_local\<close> returns \<^verbatim>\<open>DENIED\<close>, leaves every field of the
  context unchanged and makes no notify call.
\<close>

theorem set_mode_local_denied:
  assumes "controller_only ctx = 1" and "m \<le> AJ_SWITCH_MODE_HIGH"
  shows "aj_switch_set_mode_local (Some ctx) m when_ms = (AJ_SW_RET_DENIED, Some ctx, [])"
  using assms by (simp add: aj_switch_set_mode_local_def range_test_enumerator)

theorem set_mode_local_denied_witness:
  "controller_only \<lparr>enabled = 1, mode = AJ_SWITCH_MODE_AUTO, controller_only = 1,
                    last_change_ms = 3, cb = Some 0, cb_ctx = 0\<rparr> = 1
   \<and> AJ_SWITCH_MODE_HIGH \<le> AJ_SWITCH_MODE_HIGH
   \<and> aj_switch_set_mode_local
        (Some \<lparr>enabled = 1, mode = AJ_SWITCH_MODE_AUTO, controller_only = 1,
               last_change_ms = 3, cb = Some 0, cb_ctx = 0\<rparr>)
        AJ_SWITCH_MODE_HIGH 10
      = (AJ_SW_RET_DENIED,
         Some \<lparr>enabled = 1, mode = AJ_SWITCH_MODE_AUTO, controller_only = 1,
               last_change_ms = 3, cb = Some 0, cb_ctx = 0\<rparr>, [])"
  using set_mode_local_denied
    [of "\<lparr>enabled = 1, mode = AJ_SWITCH_MODE_AUTO, controller_only = 1,
          last_change_ms = 3, cb = Some 0, cb_ctx = 0\<rparr>" AJ_SWITCH_MODE_HIGH 10]
  by simp




section \<open>Properties of the frequency map and the hop barrier\<close>


lemma spread_offset_scale1:
  fixes D n c :: u32
  assumes "n \<noteq> 0" "c \<le> n"
  shows "unat (D div n * c) \<le> unat D"
proof -
  have cn: "unat c \<le> unat n" using assms(2) by (simp add: word_le_nat_alt)
  have "unat (D div n) * unat c \<le> (unat D div unat n) * unat n"
    using cn by (simp add: unat_div)
  also have "\<dots> \<le> unat D" by simp
  finally have le: "unat (D div n) * unat c \<le> unat D" .
  have "unat D < 2 ^ 32" using unsigned_less [of D] by simp
  with le have "unat (D div n) * unat c < 2 ^ LENGTH(32)" by simp
  then have "unat (D div n * c) = unat (D div n) * unat c"
    by (rule unat_mult_lem [THEN iffD1])
  with le show ?thesis by simp
qed

lemma spread_offset_scale256:
  fixes D n c :: u32
  assumes "n \<noteq> 0" "c \<le> n"
  shows "unat ((D * 256 div n) * c div 256) \<le> unat D"
proof (cases "unat D * 256 < 2 ^ 32")
  case True
  have cn: "unat c \<le> unat n" using assms(2) by (simp add: word_le_nat_alt)
  have "unat (D * 256) = unat D * unat (256 :: u32)"
    by (rule unat_mult_lem [THEN iffD1]) (use True in simp)
  then have m: "unat (D * 256) = unat D * 256" by simp
  have "unat (D * 256 div n) * unat c \<le> (unat D * 256 div unat n) * unat n"
    using cn by (simp add: unat_div m)
  also have "\<dots> \<le> unat D * 256" by simp
  finally have le: "unat (D * 256 div n) * unat c \<le> unat D * 256" .
  with True have "unat (D * 256 div n) * unat c < 2 ^ LENGTH(32)" by simp
  then have "unat (D * 256 div n * c) = unat (D * 256 div n) * unat c"
    by (rule unat_mult_lem [THEN iffD1])
  with le have "unat (D * 256 div n * c) div 256 \<le> unat D" by simp
  then show ?thesis by (simp add: unat_div)
next
  case False
  have "unat ((D * 256 div n) * c) < 2 ^ 32"
    using unsigned_less [of "(D * 256 div n) * c"] by simp
  then have "unat ((D * 256 div n) * c) div 256 < 2 ^ 24" by simp
  with False show ?thesis by (simp add: unat_div)
qed

lemma spread_offset_le:
  fixes D n c :: u32
  assumes "n \<noteq> 0" "c \<le> n"
  shows "(D * FREQ_SPREAD_SCALE rc div n) * c div FREQ_SPREAD_SCALE rc \<le> D"
  using spread_offset_scale1 [OF assms, of D] spread_offset_scale256 [OF assms, of D]
  by (simp add: FREQ_SPREAD_SCALE_def word_le_nat_alt)

lemma band_offset_le:
  assumes wf: "freq_start b \<le> freq_stop b" "2 \<le> freq_count b" and c: "c < freq_count b"
  shows "freq_start b \<le> freq_start b + band_spread rc b * c div FREQ_SPREAD_SCALE rc
       \<and> freq_start b + band_spread rc b * c div FREQ_SPREAD_SCALE rc \<le> freq_stop b"
proof -
  let ?D = "freq_stop b - freq_start b"
  let ?n = "freq_count b - 1"
  let ?off = "band_spread rc b * c div FREQ_SPREAD_SCALE rc"
  have n0: "?n \<noteq> 0" using wf(2) by (auto simp: word_le_nat_alt unat_eq_0 [symmetric] unat_sub)
  have "unat (freq_count b) \<ge> 2" using wf(2) by (simp add: word_le_nat_alt)
  then have "unat ?n = unat (freq_count b) - 1"
    by (simp add: unat_sub word_le_nat_alt)
  with c have cn: "c \<le> ?n" by (simp add: word_le_nat_alt word_less_nat_alt)
  have off: "unat ?off \<le> unat ?D"
    using spread_offset_le [OF n0 cn, of ?D rc] by (simp add: band_spread_def word_le_nat_alt)
  have D: "unat ?D = unat (freq_stop b) - unat (freq_start b)"
    using wf(1) by (simp add: unat_sub)
  have le: "unat (freq_start b) \<le> unat (freq_stop b)" using wf(1) by (simp add: word_le_nat_alt)
  have "unat (freq_start b) + unat ?off \<le> unat (freq_stop b)" using off D le by simp
  moreover have "unat (freq_stop b) < 2 ^ LENGTH(32)" by (rule unsigned_less)
  ultimately have "unat (freq_start b) + unat ?off < 2 ^ LENGTH(32)" by simp
  then have s: "unat (freq_start b + ?off) = unat (freq_start b) + unat ?off"
    by (rule unat_add_lem [THEN iffD1])
  show ?thesis using s off D le by (simp add: word_le_nat_alt)
qed

text \<open>
  Claim C8: for a band with \<open>freq_start \<le> freq_stop\<close> and at least two channels, whose spread is
  \<open>(freq_stop - freq_start) \<cdot> SPREAD_SCALE / (freq_count - 1)\<close>, a sequence entry below
  \<open>freq_count\<close> and zero frequency correction, the frequency that \<^verbatim>\<open>FHSSgetNextFreq\<close> returns lies
  in the closed interval from \<open>freq_start\<close> to \<open>freq_stop\<close>; this holds in the 32-bit arithmetic
  of the code, for either scale (1 or 256) and for the primary as for the secondary band.
\<close>

theorem FHSSgetNextFreq_in_band:
  assumes "FHSSgetSequenceCount g \<noteq> 0"
    and "FreqCorrection g = 0"
    and "active_spread g = band_spread rc (active_band g)"
    and "freq_start (active_band g) \<le> freq_stop (active_band g)"
    and "2 \<le> freq_count (active_band g)"
    and "ucast (active_sequence g (next_index (FHSSptr g) (FHSSgetSequenceCount g)))
           < freq_count (active_band g)"
  shows "\<exists>f g'. FHSSgetNextFreq rc g = Some (f, g')
           \<and> freq_start (active_band g) \<le> f \<and> f \<le> freq_stop (active_band g)"
proof (cases "FHSSusePrimaryFreqBand g")
  case True
  with assms band_offset_le [of "FHSSconfig g"
      "ucast (FHSSsequence g (next_index (FHSSptr g) (FHSSgetSequenceCount g)))" rc]
  show ?thesis
    by (cases "rc = RADIO_SX127X")
      (simp_all add: FHSSgetNextFreq_def active_band_def active_spread_def active_sequence_def
        Let_def)
next
  case False
  with assms band_offset_le [of "FHSSconfigDualBand g"
      "ucast (FHSSsequence_DualBand g (next_index (FHSSptr g) (FHSSgetSequenceCount g)))" rc]
  show ?thesis
    by (cases "rc = RADIO_SX127X")
      (simp_all add: FHSSgetNextFreq_def active_band_def active_spread_def active_sequence_def
        Let_def)
qed



theorem FHSSgetNextFreq_in_band_witness:
  "FHSSgetSequenceCount example_fhss \<noteq> 0
   \<and> FreqCorrection example_fhss = 0
   \<and> active_spread example_fhss = band_spread RADIO_SX128X (active_band example_fhss)
   \<and> freq_start (active_band example_fhss) \<le> freq_stop (active_band example_fhss)
   \<and> 2 \<le> freq_count (active_band example_fhss)
   \<and> ucast (active_sequence example_fhss (next_index (FHSSptr example_fhss) (FHSSgetSequenceCount example_fhss)))
           < freq_count (active_band example_fhss)
   \<and> (\<exists>f g'. FHSSgetNextFreq RADIO_SX128X example_fhss = Some (f, g')
           \<and> freq_start (active_band example_fhss) \<le> f \<and> f \<le> freq_stop (active_band example_fhss))"
  using FHSSgetNextFreq_in_band [of example_fhss RADIO_SX128X]
  by (simp add: example_fhss_def FHSSgetSequenceCount_def active_spread_def active_band_def
       active_sequence_def band_spread_def FREQ_SPREAD_SCALE_def next_index_def)

lemma hop_calls_disarmed:
  "FHSSHopCycleArmed g = 0 \<Longrightarrow>
     hop_calls rc rs g = Some (map (\<lambda>x. synced_freq rc x g) rs, g)"
  by (induction rs) (simp_all add: FHSSHopNextSynced_def)

text \<open>
  Claim C1: after one \<^verbatim>\<open>FHSSBeginHopCycle\<close>, any number (at least one) of \<^verbatim>\<open>FHSSHopNextSynced\<close>
  calls, by either radio in any order, leaves the synced cursor advanced exactly once modulo
  the sequence length, and every call returned the frequency of its radio at that same
  post-advance cursor.
\<close>

theorem hop_cycle_advances_once:
  assumes "FHSSgetSequenceCount g \<noteq> 0" and "rs \<noteq> []"
  shows "\<exists>fs g'. hop_calls rc rs (FHSSBeginHopCycle g) = Some (fs, g')
           \<and> FHSSptrSynced g' = next_index (FHSSptrSynced g) (FHSSgetSequenceCount g)
           \<and> fs = map (\<lambda>x. synced_freq rc x g') rs
           \<and> FHSSHopCycleArmed g' = 0
           \<and> FHSSSyncEpoch g' = FHSSSyncEpoch g + 1"
proof (cases rs)
  case Nil
  with assms(2) show ?thesis by simp
next
  case (Cons x xs)
  let ?p = "next_index (FHSSptrSynced g) (FHSSgetSequenceCount g)"
  let ?g1 = "(FHSSBeginHopCycle g)\<lparr>FHSSptrSynced := ?p, FHSSptr := ?p, FHSSHopCycleArmed := 0\<rparr>"
  have cnt: "FHSSgetSequenceCount (FHSSBeginHopCycle g) = FHSSgetSequenceCount g"
    by (simp add: FHSSgetSequenceCount_def FHSSBeginHopCycle_def)
  have armed: "FHSSHopCycleArmed (FHSSBeginHopCycle g) = 1"
    and cur: "FHSSptrSynced (FHSSBeginHopCycle g) = FHSSptrSynced g"
    by (simp_all add: FHSSBeginHopCycle_def)
  have first: "FHSSHopNextSynced rc x (FHSSBeginHopCycle g) = Some (synced_freq rc x ?g1, ?g1)"
    using assms(1) by (simp add: FHSSHopNextSynced_def cnt armed cur Let_def)
  have rest: "hop_calls rc xs ?g1 = Some (map (\<lambda>y. synced_freq rc y ?g1) xs, ?g1)"
    by (rule hop_calls_disarmed) simp
  show ?thesis
    using first rest by (simp add: Cons FHSSBeginHopCycle_def)
qed

theorem hop_cycle_advances_once_witness:
  "FHSSgetSequenceCount example_fhss \<noteq> 0 \<and> [FHSS_RADIO_1, FHSS_RADIO_2, FHSS_RADIO_1] \<noteq> []
   \<and> (\<exists>fs g'. hop_calls RADIO_SX128X [FHSS_RADIO_1, FHSS_RADIO_2, FHSS_RADIO_1] (FHSSBeginHopCycle example_fhss) = Some (fs, g')
           \<and> FHSSptrSynced g' = 6
           \<and> fs = map (\<lambda>x. synced_freq RADIO_SX128X x g') [FHSS_RADIO_1, FHSS_RADIO_2, FHSS_RADIO_1]
           \<and> FHSSHopCycleArmed g' = 0
           \<and> FHSSSyncEpoch g' = 1)"
  using hop_cycle_advances_once [of example_fhss "[FHSS_RADIO_1, FHSS_RADIO_2, FHSS_RADIO_1]" RADIO_SX128X]
  by (simp add: example_fhss_def FHSSgetSequenceCount_def next_index_def)

section \<open>Properties of the anti-jam detector\<close>

subsection \<open>The pruning loop and what the helpers leave untouched\<close>

lemma prune_stable_fixed: "prune_stable ctx cutoff \<Longrightarrow> prune_loop ctx cutoff = Some ctx"
  by (subst prune_loop.simps) (auto simp: prune_stable_def word_neq_0_conv [symmetric])

lemma prune_loop_stable: "prune_loop ctx cutoff = Some c' \<Longrightarrow> prune_stable c' cutoff"
proof (induction ctx cutoff rule: prune_loop.induct)
  case (1 ctx cutoff)
  show ?case
  proof (cases "0 < count ctx")
    case False
    with "1.prems" show ?thesis
      by (subst (asm) prune_loop.simps) (simp add: prune_stable_def word_neq_0_conv [symmetric])
  next
    case True
    note pos = this
    from "1.prems" have cap: "capacity ctx \<noteq> 0"
      by (subst (asm) prune_loop.simps) (simp add: pos split: if_splits)
    from "1.prems" have inb: "\<not> length (entries ctx) \<le> unat (ring_tail ctx)"
      by (subst (asm) prune_loop.simps) (simp add: pos cap split: if_splits)
    show ?thesis
    proof (cases "cutoff \<le> ts (entries ctx ! unat (ring_tail ctx))")
      case True
      with "1.prems" pos cap inb have "c' = ctx"
        by (subst (asm) prune_loop.simps) simp
      with True cap inb show ?thesis by (simp add: prune_stable_def)
    next
      case False
      with "1.prems" pos cap inb
      have "prune_loop
             (ctx\<lparr>bad_count :=
                    (if good (entries ctx ! unat (ring_tail ctx)) = 0 \<and> bad_count ctx > 0
                     then bad_count ctx - 1 else bad_count ctx),
                  count := count ctx - 1\<rparr>) cutoff = Some c'"
        by (subst (asm) prune_loop.simps) simp
      with "1.IH" [OF pos cap inb False] show ?thesis by simp
    qed
  qed
qed

lemma prune_loop_frame:
  "prune_loop ctx cutoff = Some c' \<Longrightarrow>
     c' = ctx\<lparr>bad_count := bad_count c', count := count c'\<rparr>"
proof (induction ctx cutoff rule: prune_loop.induct)
  case (1 ctx cutoff)
  show ?case
  proof (cases "0 < count ctx")
    case False
    with "1.prems" show ?thesis
      by (subst (asm) prune_loop.simps) simp
  next
    case True
    note pos = this
    from "1.prems" have cap: "capacity ctx \<noteq> 0"
      by (subst (asm) prune_loop.simps) (simp add: pos split: if_splits)
    from "1.prems" have inb: "\<not> length (entries ctx) \<le> unat (ring_tail ctx)"
      by (subst (asm) prune_loop.simps) (simp add: pos cap split: if_splits)
    show ?thesis
    proof (cases "cutoff \<le> ts (entries ctx ! unat (ring_tail ctx))")
      case True
      with "1.prems" pos cap inb have "c' = ctx"
        by (subst (asm) prune_loop.simps) simp
      then show ?thesis by simp
    next
      case False
      with "1.prems" pos cap inb
      have "prune_loop
             (ctx\<lparr>bad_count :=
                    (if good (entries ctx ! unat (ring_tail ctx)) = 0 \<and> bad_count ctx > 0
                     then bad_count ctx - 1 else bad_count ctx),
                  count := count ctx - 1\<rparr>) cutoff = Some c'"
        by (subst (asm) prune_loop.simps) simp
      from "1.IH" [OF pos cap inb False this]
      have "c' = ctx\<lparr>bad_count := bad_count c', count := count c'\<rparr>" by simp
      then show ?thesis .
    qed
  qed
qed

lemma prune_stable_cong:
  "count c' = count c \<Longrightarrow> capacity c' = capacity c \<Longrightarrow> head c' = head c \<Longrightarrow>
   entries c' = entries c \<Longrightarrow> prune_stable c' cutoff = prune_stable c cutoff"
  by (simp add: prune_stable_def ring_tail_def)

lemma prune_old_by_time_stable:
  assumes "prune_old_by_time c t = Some c2"
    and "cfg c' = cfg c" "count c' = count c2" "capacity c' = capacity c2" "head c' = head c2"
        "entries c' = entries c2"
  shows "prune_old_by_time c' t = Some c'"
proof (cases "window_mode (cfg c) = AJ_WINDOW_BY_TIME")
  case False
  with assms(2) show ?thesis by (simp add: prune_old_by_time_def)
next
  case True
  let ?dur = "if window_duration_ms (cfg c) \<noteq> 0 then window_duration_ms (cfg c) else 1"
  let ?cutoff = "if ?dur < t then t - ?dur else 0"
  from assms(1) True have "prune_loop c ?cutoff = Some c2"
    by (simp add: prune_old_by_time_def Let_def)
  then have "prune_stable c2 ?cutoff" by (rule prune_loop_stable)
  then have "prune_stable c' ?cutoff"
    using assms(3-6) by (simp add: prune_stable_cong [of c' c2])
  then have "prune_loop c' ?cutoff = Some c'" by (rule prune_stable_fixed)
  with True assms(2) show ?thesis
    by (auto simp: prune_old_by_time_def Let_def split: if_splits)
qed

lemma prune_old_by_time_frame:
  "prune_old_by_time c t = Some c2 \<Longrightarrow> c2 = c\<lparr>bad_count := bad_count c2, count := count c2\<rparr>"
  by (auto simp: prune_old_by_time_def Let_def split: if_splits dest: prune_loop_frame)

lemma on_window_boundary_frame [simp]:
  "cfg (on_window_boundary c t) = cfg c"
  "capacity (on_window_boundary c t) = capacity c"
  "count (on_window_boundary c t) = count c"
  "head (on_window_boundary c t) = head c"
  "bad_count (on_window_boundary c t) = bad_count c"
  "entries (on_window_boundary c t) = entries c"
  "window_start_ms (on_window_boundary c t) = window_start_ms c"
  "last_now_ms (on_window_boundary c t) = last_now_ms c"
  "ext_jam_recent (on_window_boundary c t) = ext_jam_recent c"
  "ext_jam_since_ms (on_window_boundary c t) = ext_jam_since_ms c"
  "last_reco_ms (on_window_boundary c t) = last_reco_ms c"
  "hop_cb (on_window_boundary c t) = hop_cb c"
  "hop_cb_ctx (on_window_boundary c t) = hop_cb_ctx c"
  "last_report (on_window_boundary c t) = last_report c"
  by (simp_all add: on_window_boundary_def Let_def split: prod.splits)

lemma window_remainder:
  fixes t ws dur :: u32
  assumes "dur \<noteq> 0" "dur \<le> t - ws"
  shows "(t - ws) div dur \<noteq> 0" and "\<not> dur \<le> t - (ws + (t - ws) div dur * dur)"
proof -
  have d: "0 < unat dur" using assms(1) by (simp add: unat_gt_0)
  have "unat dur \<le> unat (t - ws)" using assms(2) by (simp add: word_le_nat_alt)
  then have "0 < unat (t - ws) div unat dur" using d by (simp add: div_greater_zero_iff)
  then show "(t - ws) div dur \<noteq> 0"
    by (metis unat_div unat_0 less_numeral_extra(3))
  have "t - (ws + (t - ws) div dur * dur) = (t - ws) - (t - ws) div dur * dur"
    by simp
  also have "\<dots> = (t - ws) mod dur"
    by (simp add: minus_div_mult_eq_mod)
  finally have "t - (ws + (t - ws) div dur * dur) = (t - ws) mod dur" .
  moreover have "(t - ws) mod dur < dur"
    using assms(1) by (simp add: word_mod_less_divisor word_neq_0_conv)
  ultimately show "\<not> dur \<le> t - (ws + (t - ws) div dur * dur)" by simp
qed

lemma update_report_frame [simp]:
  "cfg (update_report c t) = cfg c"
  "capacity (update_report c t) = capacity c"
  "count (update_report c t) = count c"
  "head (update_report c t) = head c"
  "bad_count (update_report c t) = bad_count c"
  "entries (update_report c t) = entries c"
  "window_start_ms (update_report c t) = window_start_ms c"
  "last_now_ms (update_report c t) = last_now_ms c"
  "state (update_report c t) = state c"
  "jam_streak (update_report c t) = jam_streak c"
  "last_jam_change_ms (update_report c t) = last_jam_change_ms c"
  "ext_jam_recent (update_report c t) = ext_jam_recent c"
  "ext_jam_since_ms (update_report c t) = ext_jam_since_ms c"
  "last_reco_ms (update_report c t) = last_reco_ms c"
  "hop_cb (update_report c t) = hop_cb c"
  "hop_cb_ctx (update_report c t) = hop_cb_ctx c"
  by (simp_all add: update_report_def Let_def split: prod.splits)

lemma calc_score_update_report [simp]: "calc_score (update_report c t) = calc_score c"
  by (simp add: calc_score_def Let_def)

lemma update_report_fixed: "update_report (update_report c t) t = update_report c t"
  by (simp add: update_report_def [of "update_report c t"])
     (simp add: update_report_def Let_def split: prod.splits)

lemma tick_age_ext_jam_frame [simp]:
  "cfg (tick_age_ext_jam c t) = cfg c"
  "capacity (tick_age_ext_jam c t) = capacity c"
  "count (tick_age_ext_jam c t) = count c"
  "head (tick_age_ext_jam c t) = head c"
  "bad_count (tick_age_ext_jam c t) = bad_count c"
  "entries (tick_age_ext_jam c t) = entries c"
  "window_start_ms (tick_age_ext_jam c t) = window_start_ms c"
  "last_now_ms (tick_age_ext_jam c t) = last_now_ms c"
  "ext_jam_since_ms (tick_age_ext_jam c t) = ext_jam_since_ms c"
  by (simp_all add: tick_age_ext_jam_def Let_def)

lemma tick_age_ext_jam_fixed:
  "tick_age_ext_jam (update_report (tick_age_ext_jam c t) t) t
     = update_report (tick_age_ext_jam c t) t"
  by (simp add: tick_age_ext_jam_def [of "update_report (tick_age_ext_jam c t) t"])
     (simp add: tick_age_ext_jam_def Let_def)

lemma prune_old_by_time_fields:
  assumes "prune_old_by_time c t = Some c2"
  shows "cfg c2 = cfg c" "last_now_ms c2 = last_now_ms c" "capacity c2 = capacity c"
    "head c2 = head c" "entries c2 = entries c" "window_start_ms c2 = window_start_ms c"
    "ext_jam_recent c2 = ext_jam_recent c" "ext_jam_since_ms c2 = ext_jam_since_ms c"
    "state c2 = state c" "last_reco_ms c2 = last_reco_ms c" "hop_cb c2 = hop_cb c"
    "jam_streak c2 = jam_streak c" "last_jam_change_ms c2 = last_jam_change_ms c"
    "last_report c2 = last_report c" "hop_cb_ctx c2 = hop_cb_ctx c"
proof -
  note f = prune_old_by_time_frame [OF assms]
  show "cfg c2 = cfg c" using arg_cong [OF f, of cfg] by simp
  show "last_now_ms c2 = last_now_ms c" using arg_cong [OF f, of last_now_ms] by simp
  show "capacity c2 = capacity c" using arg_cong [OF f, of capacity] by simp
  show "head c2 = head c" using arg_cong [OF f, of head] by simp
  show "entries c2 = entries c" using arg_cong [OF f, of entries] by simp
  show "window_start_ms c2 = window_start_ms c" using arg_cong [OF f, of window_start_ms] by simp
  show "ext_jam_recent c2 = ext_jam_recent c" using arg_cong [OF f, of ext_jam_recent] by simp
  show "ext_jam_since_ms c2 = ext_jam_since_ms c" using arg_cong [OF f, of ext_jam_since_ms] by simp
  show "state c2 = state c" using arg_cong [OF f, of state] by simp
  show "last_reco_ms c2 = last_reco_ms c" using arg_cong [OF f, of last_reco_ms] by simp
  show "hop_cb c2 = hop_cb c" using arg_cong [OF f, of hop_cb] by simp
  show "jam_streak c2 = jam_streak c" using arg_cong [OF f, of jam_streak] by simp
  show "last_jam_change_ms c2 = last_jam_change_ms c"
    using arg_cong [OF f, of last_jam_change_ms] by simp
  show "last_report c2 = last_report c" using arg_cong [OF f, of last_report] by simp
  show "hop_cb_ctx c2 = hop_cb_ctx c" using arg_cong [OF f, of hop_cb_ctx] by simp
qed

subsection \<open>The time window of a tick\<close>

lemma tick_time_window_fields:
  assumes "tick_time_window c t = Some c3"
  shows "cfg c3 = cfg c" "last_now_ms c3 = last_now_ms c"
    "ext_jam_recent c3 = ext_jam_recent c" "ext_jam_since_ms c3 = ext_jam_since_ms c"
    "last_reco_ms c3 = last_reco_ms c" "hop_cb c3 = hop_cb c"
  using assms
  by (auto simp: tick_time_window_def Let_def prune_old_by_time_fields
      split: if_splits option.splits)

lemma tick_time_window_by_time:
  assumes m: "window_mode (cfg c) = AJ_WINDOW_BY_TIME"
    and p: "prune_old_by_time c t = Some c2"
    and d: "dur = (if window_duration_ms (cfg c) \<noteq> 0 then window_duration_ms (cfg c) else 1)"
  shows "tick_time_window c t =
           Some (if dur \<le> t - window_start_ms c
                 then on_window_boundary
                        (c2\<lparr>window_start_ms :=
                              window_start_ms c + (t - window_start_ms c) div dur * dur\<rparr>) t
                 else c2)"
proof -
  note f = prune_old_by_time_fields [OF p]
  have dur0: "dur \<noteq> 0" by (simp add: d)
  show ?thesis
  proof (cases "dur \<le> t - window_start_ms c")
    case False
    then show ?thesis
      using m p d
      by (cases "window_duration_ms (cfg c) = 0")
         (simp_all add: tick_time_window_def Let_def f)
  next
    case True
    note w = window_remainder(1) [OF dur0 True]
    show ?thesis
      using m p d True w
      by (cases "window_duration_ms (cfg c) = 0")
         (simp_all add: tick_time_window_def Let_def f)
  qed
qed

lemma tick_time_window_fixed:
  assumes run: "tick_time_window c t = Some c3"
    and agree: "cfg c' = cfg c3" "count c' = count c3" "capacity c' = capacity c3"
      "head c' = head c3" "entries c' = entries c3" "window_start_ms c' = window_start_ms c3"
  shows "tick_time_window c' t = Some c'"
proof (cases "window_mode (cfg c) = AJ_WINDOW_BY_TIME")
  case False
  with run agree(1) show ?thesis by (simp add: tick_time_window_def)
next
  case True
  from run True obtain c2 where p: "prune_old_by_time c t = Some c2"
    by (auto simp: tick_time_window_def split: option.splits)
  note f = prune_old_by_time_fields [OF p]
  define dur where
    "dur = (if window_duration_ms (cfg c) \<noteq> 0 then window_duration_ms (cfg c) else 1)"
  have dur0: "dur \<noteq> 0" by (simp add: dur_def)
  note eq = tick_time_window_by_time [OF True p dur_def]
  have c3: "c3 = (if dur \<le> t - window_start_ms c
                 then on_window_boundary
                        (c2\<lparr>window_start_ms :=
                              window_start_ms c + (t - window_start_ms c) div dur * dur\<rparr>) t
                 else c2)"
    using run eq by simp
  have fields: "cfg c3 = cfg c" "count c3 = count c2" "capacity c3 = capacity c2"
    "head c3 = head c2" "entries c3 = entries c2"
    by (simp_all add: c3 f)
  have p': "prune_old_by_time c' t = Some c'"
    using agree fields by (intro prune_old_by_time_stable [OF p]) simp_all
  have nb: "\<not> dur \<le> t - window_start_ms c3"
  proof (cases "dur \<le> t - window_start_ms c")
    case False
    then show ?thesis by (simp add: c3 f)
  next
    case le: True
    from window_remainder(2) [OF dur0 le] le show ?thesis by (simp add: c3)
  qed
  have m': "window_mode (cfg c') = AJ_WINDOW_BY_TIME" using True agree(1) fields(1) by simp
  have d': "dur = (if window_duration_ms (cfg c') \<noteq> 0 then window_duration_ms (cfg c') else 1)"
    using agree(1) fields(1) by (simp add: dur_def)
  show ?thesis
    using tick_time_window_by_time [OF m' p' d'] nb agree(6) by simp
qed

lemma tick_fixed:
  assumes "aj_tick ctx t = Some c1"
  shows "aj_tick c1 t = Some c1"
proof -
  from assms obtain c3 where w: "tick_time_window (ctx\<lparr>last_now_ms := t\<rparr>) t = Some c3"
    and c1: "c1 = update_report (tick_age_ext_jam c3 t) t"
    by (auto simp: aj_tick_def split: option.splits)
  have now: "last_now_ms c1 = t"
    using tick_time_window_fields(2) [OF w] by (simp add: c1)
  have same: "c1\<lparr>last_now_ms := t\<rparr> = c1"
    using now by (metis aj_ctx.surjective aj_ctx.update_convs(7) aj_ctx.select_convs(7))
  have w1: "tick_time_window c1 t = Some c1"
    by (rule tick_time_window_fixed [OF w]) (simp_all add: c1)
  have a1: "tick_age_ext_jam c1 t = c1"
    unfolding c1 by (rule tick_age_ext_jam_fixed)
  have r1: "update_report c1 t = c1"
    unfolding c1 by (rule update_report_fixed)
  show ?thesis
    by (simp add: aj_tick_def same w1 a1 r1)
qed

subsection \<open>Index arithmetic of the ring\<close>

lemma mod_add_inj_le:
  fixes a c k j :: nat
  assumes "j \<le> k" "k < c" "(a + k) mod c = (a + j) mod c"
  shows "k = j"
proof (rule ccontr)
  assume "k \<noteq> j"
  with assms(1) have pos: "0 < k - j" by simp
  have "c dvd (a + k) - (a + j)"
    using assms(1,3) by (simp add: mod_eq_dvd_iff_nat)
  then have "c dvd k - j" by simp
  moreover have "k - j < c" using assms(2) by simp
  ultimately show False using pos nat_dvd_not_less by blast
qed

lemma mod_add_inj:
  fixes a c k j :: nat
  assumes "k < c" "j < c" "(a + k) mod c = (a + j) mod c"
  shows "k = j"
proof (cases "j \<le> k")
  case True
  then show ?thesis using assms mod_add_inj_le by blast
next
  case False
  then have "k \<le> j" by simp
  then show ?thesis using assms mod_add_inj_le [of k j c a] by simp
qed

lemma slot_push:
  fixes h c n k :: nat
  assumes "h < c" "n < c"
  shows "((h + 1) mod c + c - Suc n + k) mod c = (h + c - n + k) mod c"
proof (cases "h + 1 < c")
  case True
  with assms(2) show ?thesis by simp
next
  case False
  with assms(1) have hc: "h + 1 = c" by simp
  then have l: "(h + 1) mod c + c - Suc n + k = c - Suc n + k" by simp
  have "h + c - n + k = (c - Suc n + k) + c" using hc assms(2) by simp
  then have "(h + c - n + k) mod c = (c - Suc n + k) mod c"
    by (simp only: mod_add_self2)
  with l show ?thesis by simp
qed

lemma slot_push_full:
  fixes h c k :: nat
  shows "((h + 1) mod c + k) mod c = (h + Suc k) mod c"
  by (simp add: mod_add_left_eq)

lemma slot_pop:
  fixes h c n k :: nat
  assumes "0 < n" "n \<le> c"
  shows "h + c - (n - 1) + k = h + c - n + Suc k"
  using assms by simp

lemma slot_head:
  fixes h c n :: nat
  assumes "h < c" "n \<le> c"
  shows "(h + c - n + n) mod c = h"
  using assms by simp

lemma slot_distinct:
  fixes a c k j :: nat
  assumes "k < c" "j < c" "k \<noteq> j"
  shows "(a + k) mod c \<noteq> (a + j) mod c"
  using assms mod_add_inj by blast

lemma map_ring_push:
  assumes "\<And>k. k < n \<Longrightarrow> g k = f k" "\<And>k. k < n \<Longrightarrow> f k \<noteq> h" "g n = h" "h < length es"
  shows "map (\<lambda>k. es[h := e] ! g k) [0..<Suc n] = map (\<lambda>k. es ! f k) [0..<n] @ [e]"
proof -
  have "es[h := e] ! g k = es ! f k" if "k < n" for k
    using assms(1,2) [OF that] by simp
  moreover have "es[h := e] ! g n = e" using assms(3,4) by simp
  ultimately show ?thesis by simp
qed

lemma map_ring_rotate:
  assumes "0 < n"
    and "\<And>k. Suc k < n \<Longrightarrow> g k = f (Suc k)" "\<And>k. Suc k < n \<Longrightarrow> f (Suc k) \<noteq> h"
    and "g (n - 1) = h" "h < length es"
  shows "map (\<lambda>k. es[h := e] ! g k) [0..<n] = tl (map (\<lambda>k. es ! f k) [0..<n]) @ [e]"
proof (rule nth_equalityI)
  show "length (map (\<lambda>k. es[h := e] ! g k) [0..<n])
          = length (tl (map (\<lambda>k. es ! f k) [0..<n]) @ [e])"
    using assms(1) by simp
next
  fix i
  assume "i < length (map (\<lambda>k. es[h := e] ! g k) [0..<n])"
  then have i: "i < n" by simp
  show "map (\<lambda>k. es[h := e] ! g k) [0..<n] ! i
          = (tl (map (\<lambda>k. es ! f k) [0..<n]) @ [e]) ! i"
  proof (cases "Suc i < n")
    case True
    then have "i < n - 1" by simp
    with True i assms(2) [OF True] assms(3) [OF True] show ?thesis
      by (simp add: nth_append nth_tl)
  next
    case False
    with i have "i = n - 1" by simp
    with i assms(4,5) show ?thesis
      by (simp add: nth_append)
  qed
qed

lemma map_ring_pop:
  assumes "\<And>k. Suc k < n \<Longrightarrow> g k = f (Suc k)"
  shows "map (\<lambda>k. es ! g k) [0..<n - 1] = tl (map (\<lambda>k. es ! f k) [0..<n])"
proof (rule nth_equalityI)
  show "length (map (\<lambda>k. es ! g k) [0..<n - 1]) = length (tl (map (\<lambda>k. es ! f k) [0..<n]))"
    by simp
next
  fix i
  assume "i < length (map (\<lambda>k. es ! g k) [0..<n - 1])"
  then have i: "i < n - 1" by simp
  then have "Suc i < n" by simp
  with i assms [OF this] show "map (\<lambda>k. es ! g k) [0..<n - 1] ! i
          = tl (map (\<lambda>k. es ! f k) [0..<n]) ! i"
    by (simp add: nth_tl)
qed

lemma uint_ring_tail:
  fixes h c n :: "16 word"
  assumes "unat n \<le> unat c"
  shows "uint h + uint c - uint n = int (unat h + unat c - unat n)"
proof -
  have "int (unat h + unat c - unat n) = int (unat h + unat c) - int (unat n)"
    using assms by (intro of_nat_diff) simp
  then show ?thesis by simp
qed

lemma smod_nat:
  fixes a c :: nat
  shows "int a smod int c = int (a mod c)"
  by (simp add: smod_int_alt_def zmod_int sgn_if)

lemma unat_of_nat_less:
  fixes x :: nat and c :: "16 word"
  assumes "x < unat c"
  shows "unat (of_nat x :: 16 word) = x"
  using assms by (intro le_unat_uoi [of x c]) simp

lemma ring_tail_nat:
  fixes h c n :: "16 word"
  assumes "c \<noteq> 0" "n \<le> c"
  shows "unat (of_int ((uint h + uint c - uint n) smod uint c) :: 16 word)
           = (unat h + unat c - unat n) mod unat c"
proof -
  have c: "0 < unat c" using assms(1) by (simp add: unat_gt_0)
  have n: "unat n \<le> unat c" using assms(2) by (simp add: word_le_nat_alt)
  have "(uint h + uint c - uint n) smod uint c = int (unat h + unat c - unat n) smod int (unat c)"
    by (simp only: uint_ring_tail [OF n]) (simp only: uint_nat)
  also have "\<dots> = int ((unat h + unat c - unat n) mod unat c)" by (rule smod_nat)
  finally have "(of_int ((uint h + uint c - uint n) smod uint c) :: 16 word)
                  = of_nat ((unat h + unat c - unat n) mod unat c)"
    by simp
  moreover have "(unat h + unat c - unat n) mod unat c < unat c" using c by simp
  ultimately show ?thesis by (simp only: unat_of_nat_less)
qed

subsection \<open>The ring invariant\<close>

lemma ring_ok_alt:
  "ring_ok ctx \<longleftrightarrow>
     capacity ctx \<noteq> 0 \<and> head ctx < capacity ctx \<and> count ctx \<le> capacity ctx
     \<and> (\<forall>k < unat (count ctx). ring_slot ctx k < length (entries ctx))
     \<and> unat (bad_count ctx) = bad_in_ring ctx"
  by (auto simp: ring_ok_def list_all_iff)

lemma ring_ok_cong:
  "capacity c' = capacity c \<Longrightarrow> head c' = head c \<Longrightarrow> count c' = count c \<Longrightarrow>
   entries c' = entries c \<Longrightarrow> bad_count c' = bad_count c \<Longrightarrow> ring_ok c' = ring_ok c"
  by (simp add: ring_ok_alt bad_in_ring_def ring_entries_def ring_slot_def)

lemma ring_nat_facts:
  assumes "ring_ok ctx"
  shows "0 < unat (capacity ctx)" "unat (head ctx) < unat (capacity ctx)"
    "unat (count ctx) \<le> unat (capacity ctx)"
  using assms by (simp_all add: ring_ok_alt unat_gt_0 word_less_nat_alt word_le_nat_alt)

lemma ring_tail_slot:
  assumes "ring_ok ctx"
  shows "unat (ring_tail ctx) = ring_slot ctx 0"
  using assms ring_tail_nat [of "capacity ctx" "count ctx" "head ctx"]
  by (simp add: ring_ok_alt ring_tail_def ring_slot_def)

lemma bad_tl:
  "xs \<noteq> [] \<Longrightarrow>
     length (filter P (tl xs)) = length (filter P xs) - (if P (hd xs) then 1 else 0)"
  by (cases xs) simp_all

lemma bad_pos: "xs \<noteq> [] \<Longrightarrow> P (hd xs) \<Longrightarrow> 0 < length (filter P xs)"
  by (cases xs) simp_all

lemma ring_entries_hd:
  assumes "ring_ok ctx" "0 < count ctx"
  shows "ring_entries ctx \<noteq> []"
    and "hd (ring_entries ctx) = entries ctx ! unat (ring_tail ctx)"
    and "unat (ring_tail ctx) < length (entries ctx)"
proof -
  have n: "0 < unat (count ctx)" using assms(2) by (simp add: word_less_nat_alt)
  then show "ring_entries ctx \<noteq> []" by (simp add: ring_entries_def)
  show "hd (ring_entries ctx) = entries ctx ! unat (ring_tail ctx)"
    using n by (simp add: ring_entries_def hd_map ring_tail_slot [OF assms(1)] upt_conv_Cons)
  show "unat (ring_tail ctx) < length (entries ctx)"
    using n assms(1) by (simp add: ring_tail_slot [OF assms(1)] ring_ok_alt)
qed

lemma ring_ok_drop_tail:
  assumes ok: "ring_ok ctx" and pos: "0 < count ctx"
  shows "ring_ok
           (ctx\<lparr>bad_count :=
                  (if good (entries ctx ! unat (ring_tail ctx)) = 0 \<and> bad_count ctx > 0
                   then bad_count ctx - 1 else bad_count ctx),
                count := count ctx - 1\<rparr>)"
    (is "ring_ok ?c'")
proof -
  note n = ring_nat_facts [OF ok]
  note h = ring_entries_hd [OF ok pos]
  let ?P = "\<lambda>e. good e = 0"
  have cnt0: "count ctx \<noteq> 0" using pos by (simp add: word_neq_0_conv)
  have npos: "0 < unat (count ctx)" using pos by (simp add: word_less_nat_alt)
  have cnt: "unat (count ctx - 1) = unat (count ctx) - 1"
    using cnt0 by (rule unat_minus_one)
  let ?d = "\<lambda>b. ctx\<lparr>bad_count := b, count := count ctx - 1\<rparr>"
  have slot: "ring_slot (?d b) k = ring_slot ctx (Suc k)" for k b
  proof -
    have "ring_slot (?d b) k
            = (unat (head ctx) + unat (capacity ctx) - (unat (count ctx) - 1) + k)
                mod unat (capacity ctx)"
      by (simp add: ring_slot_def cnt)
    also have "\<dots> = (unat (head ctx) + unat (capacity ctx) - unat (count ctx) + Suc k)
                mod unat (capacity ctx)"
      by (simp only: slot_pop [OF npos n(3)])
    finally show ?thesis by (simp only: ring_slot_def)
  qed
  have ents: "ring_entries (?d b) = tl (ring_entries ctx)" for b
  proof -
    have "map (\<lambda>k. entries ctx ! ring_slot (?d b) k) [0..<unat (count ctx) - 1]
            = tl (map (\<lambda>k. entries ctx ! ring_slot ctx k) [0..<unat (count ctx)])"
      by (rule map_ring_pop) (rule slot)
    then show ?thesis by (simp add: ring_entries_def cnt)
  qed
  have inb: "ring_slot (?d b) k < length (entries ctx)" if "k < unat (count ctx) - 1" for k b
  proof -
    from that have "Suc k < unat (count ctx)" by simp
    with ok have "ring_slot ctx (Suc k) < length (entries ctx)" by (simp add: ring_ok_alt)
    then show ?thesis by (simp only: slot)
  qed
  have le: "count ctx - 1 \<le> capacity ctx"
    using n(3) by (simp add: word_le_nat_alt cnt)
  have b: "unat (bad_count ctx) = length (filter ?P (ring_entries ctx))"
    using ok by (simp add: ring_ok_alt bad_in_ring_def)
  have tl: "length (filter ?P (tl (ring_entries ctx)))
              = length (filter ?P (ring_entries ctx))
                - (if good (entries ctx ! unat (ring_tail ctx)) = 0 then 1 else 0)"
    using bad_tl [OF h(1), of ?P] by (simp only: h(2))
  have bad: "unat (bad_count ?c') = bad_in_ring ?c'"
  proof (cases "good (entries ctx ! unat (ring_tail ctx)) = 0")
    case True
    then have "0 < length (filter ?P (ring_entries ctx))"
      using bad_pos [OF h(1), of ?P] by (simp only: h(2))
    with b have "0 < unat (bad_count ctx)" by simp
    then have bpos: "0 < bad_count ctx" by (simp add: word_less_nat_alt)
    then have "bad_count ctx \<noteq> 0" by (simp add: word_neq_0_conv)
    then have "unat (bad_count ctx - 1) = unat (bad_count ctx) - 1" by (rule unat_minus_one)
    with True bpos b tl show ?thesis
      by (simp add: bad_in_ring_def ents)
  next
    case False
    have "ring_entries (ctx\<lparr>count := count ctx - 1\<rparr>) = tl (ring_entries ctx)"
      using ents [of "bad_count ctx"] by simp
    with False b tl show ?thesis
      by (simp add: bad_in_ring_def)
  qed
  have "capacity ?c' \<noteq> 0" "head ?c' < capacity ?c'" using ok by (simp_all add: ring_ok_alt)
  moreover have "count ?c' \<le> capacity ?c'" using le by simp
  moreover have "\<forall>k < unat (count ?c'). ring_slot ?c' k < length (entries ?c')"
    using inb by (simp add: cnt)
  ultimately show ?thesis
    using bad unfolding ring_ok_alt by blast
qed

lemma prune_loop_ok:
  "ring_ok ctx \<Longrightarrow> \<exists>c'. prune_loop ctx cutoff = Some c' \<and> ring_ok c'"
proof (induction ctx cutoff rule: prune_loop.induct)
  case (1 ctx cutoff)
  show ?case
  proof (cases "0 < count ctx")
    case False
    with "1.prems" show ?thesis by (subst prune_loop.simps) simp
  next
    case pos: True
    have cap: "capacity ctx \<noteq> 0" using "1.prems" by (simp add: ring_ok_alt)
    have inb: "\<not> length (entries ctx) \<le> unat (ring_tail ctx)"
      using ring_entries_hd(3) [OF "1.prems" pos] by simp
    show ?thesis
    proof (cases "cutoff \<le> ts (entries ctx ! unat (ring_tail ctx))")
      case True
      with pos cap inb "1.prems" show ?thesis by (subst prune_loop.simps) simp
    next
      case False
      from "1.IH" [OF pos cap inb False ring_ok_drop_tail [OF "1.prems" pos]]
      show ?thesis
        using pos cap inb False by (subst prune_loop.simps) simp
    qed
  qed
qed

lemma prune_old_by_time_ok:
  "ring_ok ctx \<Longrightarrow> \<exists>c'. prune_old_by_time ctx t = Some c' \<and> ring_ok c'"
  by (simp add: prune_old_by_time_def Let_def prune_loop_ok)

lemma bad_le_length: "length (filter P xs) \<le> length xs"
  by simp

lemma unat_succ_u16:
  fixes b :: u16
  assumes "unat b < n" "n < 2 ^ 16"
  shows "unat (b + 1) = unat b + 1"
proof -
  have "unat b + unat (1 :: u16) < 2 ^ LENGTH(16)" using assms by simp
  then have "unat (b + 1) = unat b + unat (1 :: u16)" by (rule unat_add_lem [THEN iffD1])
  then show ?thesis by simp
qed

lemma head_advance:
  fixes h c :: u16
  assumes "c \<noteq> 0"
  shows "unat (of_nat ((unat h + 1) mod unat c) :: u16) = (unat h + 1) mod unat c"
    and "(of_nat ((unat h + 1) mod unat c) :: u16) < c"
proof -
  have c: "0 < unat c" using assms by (simp add: unat_gt_0)
  then have lt: "(unat h + 1) mod unat c < unat c" by simp
  then show u: "unat (of_nat ((unat h + 1) mod unat c) :: u16) = (unat h + 1) mod unat c"
    by (rule unat_of_nat_less)
  show "(of_nat ((unat h + 1) mod unat c) :: u16) < c"
    using lt by (simp only: word_less_nat_alt u)
qed

lemma ring_length: "length (ring_entries ctx) = unat (count ctx)"
  by (simp add: ring_entries_def)

lemma ring_insert_not_full:
  assumes ok: "ring_ok c2" and inb: "unat (head c2) < length (entries c2)"
    and nf: "count c2 \<noteq> capacity c2"
  shows "\<exists>c6. ring_insert c2 g t = Some c6 \<and> ring_ok c6
            \<and> c6 = c2\<lparr>count := count c6, bad_count := bad_count c6, entries := entries c6,
                      head := head c6\<rparr>
            \<and> length (entries c6) = length (entries c2)
            \<and> count c6 = count c2 + 1"
proof -
  note n = ring_nat_facts [OF ok]
  let ?h = "unat (head c2)" and ?c = "unat (capacity c2)" and ?n = "unat (count c2)"
  let ?e = "\<lparr>good = bool01 g, ts = t\<rparr>"
  let ?P = "\<lambda>e. good e = 0"
  have cap: "capacity c2 \<noteq> 0" using ok by (simp add: ring_ok_alt)
  have nlt: "?n < ?c" using n(3) nf by (simp add: word_unat_eq_iff)
  have c16: "?c < 2 ^ 16" using unsigned_less [of "capacity c2", where 'a = nat] by simp
  have cnt: "unat (count c2 + 1) = ?n + 1" using nlt c16 by (rule unat_succ_u16)
  define b' where "b' = (if good ?e = 0 then bad_count c2 + 1 else bad_count c2)"
  define c6 where "c6 = c2\<lparr>count := count c2 + 1, bad_count := b',
                            entries := (entries c2)[?h := ?e],
                            head := of_nat ((?h + 1) mod ?c)\<rparr>"
  have run: "ring_insert c2 g t = Some c6"
    using inb nf cap by (simp add: ring_insert_def Let_def c6_def b'_def)
  note hd = head_advance [OF cap, of "head c2"]
  have hd1: "unat (of_nat (Suc ?h mod ?c) :: u16) = Suc ?h mod ?c" using hd(1) by simp
  have slot: "ring_slot c6 k = ring_slot c2 k" for k
    using slot_push [OF n(2) nlt, of k]
    by (simp add: ring_slot_def c6_def hd1 cnt)
  have last: "ring_slot c2 ?n = ?h"
    using slot_head [OF n(2,3)] by (simp add: ring_slot_def)
  have other: "ring_slot c2 k \<noteq> ?h" if "k < ?n" for k
  proof -
    from that nlt have "k < ?c" "?n < ?c" "k \<noteq> ?n" by simp_all
    from slot_distinct [OF this, of "?h + ?c - ?n"] last show ?thesis
      by (simp add: ring_slot_def)
  qed
  have ents: "ring_entries c6 = ring_entries c2 @ [?e]"
  proof -
    have "map (\<lambda>k. (entries c2)[?h := ?e] ! ring_slot c6 k) [0..<Suc ?n]
            = map (\<lambda>k. entries c2 ! ring_slot c2 k) [0..<?n] @ [?e]"
      using slot other last inb by (intro map_ring_push) simp_all
    then show ?thesis by (simp add: ring_entries_def c6_def cnt)
  qed
  have b: "unat (bad_count c2) = length (filter ?P (ring_entries c2))"
    using ok by (simp add: ring_ok_alt bad_in_ring_def)
  have "unat (bad_count c2) \<le> ?n"
    using bad_le_length [of ?P "ring_entries c2"] by (simp add: b ring_length)
  with nlt have "unat (bad_count c2) < ?c" by simp
  then have binc: "unat (bad_count c2 + 1) = unat (bad_count c2) + 1"
    using c16 by (rule unat_succ_u16)
  have bad: "unat (bad_count c6) = bad_in_ring c6"
    using b binc by (simp add: bad_in_ring_def ents) (simp add: c6_def b'_def)
  have range: "\<forall>k < unat (count c6). ring_slot c6 k < length (entries c6)"
  proof (intro allI impI)
    fix k assume "k < unat (count c6)"
    then have "k < ?n \<or> k = ?n" by (auto simp: c6_def cnt)
    then show "ring_slot c6 k < length (entries c6)"
    proof
      assume "k < ?n"
      with ok have "ring_slot c2 k < length (entries c2)" by (simp add: ring_ok_alt)
      then show ?thesis by (simp add: slot) (simp add: c6_def)
    next
      assume "k = ?n"
      with last inb show ?thesis by (simp add: slot) (simp add: c6_def)
    qed
  qed
  have "capacity c6 \<noteq> 0" using cap by (simp add: c6_def)
  moreover have "head c6 < capacity c6" using hd(2) by (simp add: c6_def)
  moreover have "count c6 \<le> capacity c6"
    using nlt by (simp add: c6_def word_le_nat_alt cnt)
  ultimately have "ring_ok c6" using range bad unfolding ring_ok_alt by blast
  moreover have "c6 = c2\<lparr>count := count c6, bad_count := bad_count c6, entries := entries c6,
                      head := head c6\<rparr>"
    by (simp add: c6_def)
  moreover have "length (entries c6) = length (entries c2)" "count c6 = count c2 + 1"
    by (simp_all add: c6_def)
  ultimately show ?thesis using run by blast
qed

lemma ring_insert_full:
  assumes ok: "ring_ok c2" and full: "count c2 = capacity c2"
  shows "\<exists>c6. ring_insert c2 g t = Some c6 \<and> ring_ok c6
            \<and> c6 = c2\<lparr>count := count c6, bad_count := bad_count c6, entries := entries c6,
                      head := head c6\<rparr>
            \<and> length (entries c6) = length (entries c2)
            \<and> count c6 = count c2"
proof -
  note n = ring_nat_facts [OF ok]
  let ?h = "unat (head c2)" and ?c = "unat (capacity c2)" and ?n = "unat (count c2)"
  let ?e = "\<lparr>good = bool01 g, ts = t\<rparr>"
  let ?P = "\<lambda>e. good e = 0"
  have cap: "capacity c2 \<noteq> 0" using ok by (simp add: ring_ok_alt)
  have nc: "?n = ?c" using full by simp
  have pos: "0 < count c2" using cap full by (simp add: word_neq_0_conv)
  have c16: "?c < 2 ^ 16" using unsigned_less [of "capacity c2", where 'a = nat] by simp
  have slot0: "ring_slot c2 0 = ?h" using n(2) by (simp add: ring_slot_def nc)
  have tail: "unat (ring_tail c2) = ?h" using ring_tail_slot [OF ok] slot0 by simp
  note h = ring_entries_hd [OF ok pos]
  have inb: "?h < length (entries c2)" using h(3) tail by simp
  define b1 where "b1 = (if good (entries c2 ! ?h) = 0 \<and> bad_count c2 > 0
                         then bad_count c2 - 1 else bad_count c2)"
  define b' where "b' = (if good ?e = 0 then b1 + 1 else b1)"
  define c6 where "c6 = c2\<lparr>bad_count := b', entries := (entries c2)[?h := ?e],
                            head := of_nat ((?h + 1) mod ?c)\<rparr>"
  have run: "ring_insert c2 g t = Some c6"
    using inb full cap by (simp add: ring_insert_def Let_def c6_def b'_def b1_def)
  note hd = head_advance [OF cap, of "head c2"]
  have hd1: "unat (of_nat (Suc ?h mod ?c) :: u16) = Suc ?h mod ?c" using hd(1) by simp
  have slot2: "ring_slot c2 k = (?h + k) mod ?c" for k
    by (simp add: ring_slot_def nc)
  have slot: "ring_slot c6 k = ring_slot c2 (Suc k)" for k
    using slot_push_full [of ?h ?c k]
    by (simp add: slot2) (simp add: ring_slot_def c6_def hd1 nc)
  have other: "ring_slot c2 (Suc k) \<noteq> ?h" if "Suc k < ?c" for k
  proof -
    from that n(1) have "Suc k < ?c" "0 < ?c" "Suc k \<noteq> 0" by simp_all
    from slot_distinct [OF this, of ?h] n(2) show ?thesis by (simp add: slot2)
  qed
  have last: "ring_slot c6 (?c - 1) = ?h"
    using n(1,2) by (simp add: slot slot2)
  have ents: "ring_entries c6 = tl (ring_entries c2) @ [?e]"
  proof -
    have "map (\<lambda>k. (entries c2)[?h := ?e] ! ring_slot c6 k) [0..<?c]
            = tl (map (\<lambda>k. entries c2 ! ring_slot c2 k) [0..<?c]) @ [?e]"
      using n(1) slot other last inb by (intro map_ring_rotate) simp_all
    then show ?thesis by (simp add: ring_entries_def nc) (simp add: c6_def nc)
  qed
  have b: "unat (bad_count c2) = length (filter ?P (ring_entries c2))"
    using ok by (simp add: ring_ok_alt bad_in_ring_def)
  have tl: "length (filter ?P (tl (ring_entries c2)))
              = length (filter ?P (ring_entries c2)) - (if good (entries c2 ! ?h) = 0 then 1 else 0)"
    using bad_tl [OF h(1), of ?P] by (simp only: h(2) tail)
  have b1: "unat b1 = length (filter ?P (tl (ring_entries c2)))"
  proof (cases "good (entries c2 ! ?h) = 0")
    case True
    then have "0 < length (filter ?P (ring_entries c2))"
      using bad_pos [OF h(1), of ?P] by (simp only: h(2) tail)
    with b have "0 < unat (bad_count c2)" by simp
    then have bpos: "0 < bad_count c2" by (simp add: word_less_nat_alt)
    then have "bad_count c2 \<noteq> 0" by (simp add: word_neq_0_conv)
    then have "unat (bad_count c2 - 1) = unat (bad_count c2) - 1" by (rule unat_minus_one)
    with True bpos b tl show ?thesis by (simp add: b1_def)
  next
    case False
    with b tl show ?thesis by (simp add: b1_def)
  qed
  have "unat b1 \<le> length (tl (ring_entries c2))"
    using bad_le_length [of ?P "tl (ring_entries c2)"] by (simp only: b1)
  then have "unat b1 < ?c" using n(1) by (simp add: ring_length nc)
  then have binc: "unat (b1 + 1) = unat b1 + 1" using c16 by (rule unat_succ_u16)
  have bad: "unat (bad_count c6) = bad_in_ring c6"
    using b1 binc by (simp add: bad_in_ring_def ents) (simp add: c6_def b'_def)
  have range: "\<forall>k < unat (count c6). ring_slot c6 k < length (entries c6)"
  proof (intro allI impI)
    fix k assume "k < unat (count c6)"
    then have k: "k < ?c" by (simp add: c6_def nc)
    show "ring_slot c6 k < length (entries c6)"
    proof (cases "Suc k < ?c")
      case True
      with ok have "ring_slot c2 (Suc k) < length (entries c2)" by (simp add: ring_ok_alt nc)
      then show ?thesis by (simp add: slot) (simp add: c6_def)
    next
      case False
      with k have "k = ?c - 1" by simp
      with last inb show ?thesis by (simp add: c6_def)
    qed
  qed
  have "capacity c6 \<noteq> 0" using cap by (simp add: c6_def)
  moreover have "head c6 < capacity c6" using hd(2) by (simp add: c6_def)
  moreover have "count c6 \<le> capacity c6" using full by (simp add: c6_def)
  ultimately have "ring_ok c6" using range bad unfolding ring_ok_alt by blast
  moreover have "c6 = c2\<lparr>count := count c6, bad_count := bad_count c6, entries := entries c6,
                      head := head c6\<rparr>"
    by (simp add: c6_def)
  moreover have "length (entries c6) = length (entries c2)" "count c6 = count c2"
    by (simp_all add: c6_def)
  ultimately show ?thesis using run by blast
qed

lemma ring_insert_ok:
  assumes ok: "ring_ok c2" and run: "ring_insert c2 g t = Some c6"
  shows "ring_ok c6"
    and "c6 = c2\<lparr>count := count c6, bad_count := bad_count c6, entries := entries c6,
                    head := head c6\<rparr>"
    and "length (entries c6) = length (entries c2)"
proof -
  have inb: "unat (head c2) < length (entries c2)"
    using run by (simp add: ring_insert_def split: if_splits)
  have "ring_ok c6
      \<and> c6 = c2\<lparr>count := count c6, bad_count := bad_count c6, entries := entries c6,
                head := head c6\<rparr>
      \<and> length (entries c6) = length (entries c2)"
  proof (cases "count c2 = capacity c2")
    case True
    from ring_insert_full [OF ok True, of g t] run show ?thesis by auto
  next
    case False
    from ring_insert_not_full [OF ok inb False, of g t] run show ?thesis by auto
  qed
  then show "ring_ok c6"
    and "c6 = c2\<lparr>count := count c6, bad_count := bad_count c6, entries := entries c6,
                    head := head c6\<rparr>"
    and "length (entries c6) = length (entries c2)"
    by blast+
qed

lemma ring_insert_defined:
  assumes "aj_wf c2"
  shows "\<exists>c6. ring_insert c2 g t = Some c6"
proof (cases "count c2 = capacity c2")
  case True
  from assms ring_insert_full [OF _ True, of g t] show ?thesis by (auto simp: aj_wf_def)
next
  case False
  have ok: "ring_ok c2" using assms by (simp add: aj_wf_def)
  have "unat (head c2) < unat (capacity c2)" by (rule ring_nat_facts(2) [OF ok])
  with assms have "unat (head c2) < length (entries c2)" by (simp add: aj_wf_def)
  from ring_insert_not_full [OF ok this False, of g t] show ?thesis by auto
qed

lemma ring_insert_fields:
  assumes "ring_ok c2" "ring_insert c2 g t = Some c6"
  shows "cfg c6 = cfg c2" "capacity c6 = capacity c2" "state c6 = state c2"
    "last_reco_ms c6 = last_reco_ms c2" "hop_cb c6 = hop_cb c2"
    "ext_jam_recent c6 = ext_jam_recent c2" "jam_streak c6 = jam_streak c2"
proof -
  note f = ring_insert_ok(2) [OF assms]
  show "cfg c6 = cfg c2" using arg_cong [OF f, of cfg] by simp
  show "capacity c6 = capacity c2" using arg_cong [OF f, of capacity] by simp
  show "state c6 = state c2" using arg_cong [OF f, of state] by simp
  show "last_reco_ms c6 = last_reco_ms c2" using arg_cong [OF f, of last_reco_ms] by simp
  show "hop_cb c6 = hop_cb c2" using arg_cong [OF f, of hop_cb] by simp
  show "ext_jam_recent c6 = ext_jam_recent c2" using arg_cong [OF f, of ext_jam_recent] by simp
  show "jam_streak c6 = jam_streak c2" using arg_cong [OF f, of jam_streak] by simp
qed

lemma maybe_fire_frame [simp]:
  "cfg (fst (maybe_fire_hop_callback c t)) = cfg c"
  "capacity (fst (maybe_fire_hop_callback c t)) = capacity c"
  "count (fst (maybe_fire_hop_callback c t)) = count c"
  "head (fst (maybe_fire_hop_callback c t)) = head c"
  "bad_count (fst (maybe_fire_hop_callback c t)) = bad_count c"
  "entries (fst (maybe_fire_hop_callback c t)) = entries c"
  "hop_cb (fst (maybe_fire_hop_callback c t)) = hop_cb c"
  "ext_jam_recent (fst (maybe_fire_hop_callback c t)) = ext_jam_recent c"
  "last_report (fst (maybe_fire_hop_callback c t)) = last_report c"
  "state (fst (maybe_fire_hop_callback c t)) = state c"
  by (simp_all add: maybe_fire_hop_callback_def)

lemma ring_ok_after_report:
  "ring_ok (fst (maybe_fire_hop_callback (update_report c t) t)) = ring_ok c"
  by (rule ring_ok_cong) simp_all

lemma ring_ok_on_window_boundary: "ring_ok (on_window_boundary c t) = ring_ok c"
  by (rule ring_ok_cong) simp_all

lemma ring_ok_tick_age: "ring_ok (tick_age_ext_jam c t) = ring_ok c"
  by (rule ring_ok_cong) simp_all

lemma ring_ok_update_report: "ring_ok (update_report c t) = ring_ok c"
  by (rule ring_ok_cong) simp_all

lemma register_packet_ok:
  assumes ok: "ring_ok ctx" and run: "aj_register_packet ctx g t = Some (c', fired)"
  shows "ring_ok c'" and "length (entries c') = length (entries ctx)"
proof -
  have ok1: "ring_ok (ctx\<lparr>last_now_ms := t\<rparr>)"
    using ok by (simp add: ring_ok_cong [of "ctx\<lparr>last_now_ms := t\<rparr>" ctx])
  from run obtain c2 where p: "prune_old_by_time (ctx\<lparr>last_now_ms := t\<rparr>) t = Some c2"
    by (auto simp: aj_register_packet_def split: option.splits)
  from prune_old_by_time_ok [OF ok1, of t] p have ok2: "ring_ok c2" by simp
  from run p obtain c6 where i: "ring_insert c2 g t = Some c6"
    by (auto simp: aj_register_packet_def split: option.splits)
  note ok6 = ring_insert_ok [OF ok2 i]
  define c7 where "c7 = (if window_mode (cfg c6) = AJ_WINDOW_BY_COUNT
                             \<and> count c6 = capacity c6 \<and> head c6 = 0
                          then on_window_boundary c6 t else c6)"
  have ok7: "ring_ok c7" "entries c7 = entries c6"
    using ok6(1) by (simp_all add: c7_def ring_ok_on_window_boundary)
  have c': "c' = fst (maybe_fire_hop_callback (update_report c7 t) t)"
    using run p i by (simp add: aj_register_packet_def c7_def Let_def)
  show "ring_ok c'" using ok7(1) by (simp add: c' ring_ok_after_report)
  show "length (entries c') = length (entries ctx)"
    using ok6(3) ok7(2) prune_old_by_time_fields(5) [OF p] by (simp add: c')
qed

lemma register_packet_defined:
  assumes "aj_wf ctx"
  shows "\<exists>r. aj_register_packet ctx g t = Some r"
proof -
  have ok1: "ring_ok (ctx\<lparr>last_now_ms := t\<rparr>)"
    using assms by (simp add: aj_wf_def ring_ok_cong [of "ctx\<lparr>last_now_ms := t\<rparr>" ctx])
  from prune_old_by_time_ok [OF ok1, of t]
  obtain c2 where p: "prune_old_by_time (ctx\<lparr>last_now_ms := t\<rparr>) t = Some c2"
    and ok2: "ring_ok c2" by blast
  note f = prune_old_by_time_fields [OF p]
  have "aj_wf c2" using ok2 assms f(3,5) by (simp add: aj_wf_def)
  from ring_insert_defined [OF this, of g t] obtain c6 where "ring_insert c2 g t = Some c6" ..
  with p show ?thesis by (simp add: aj_register_packet_def Let_def)
qed

lemma register_external_jam_ok:
  assumes ok: "ring_ok ctx"
  shows "\<exists>c' fired. aj_register_external_jam ctx t = Some (c', fired) \<and> ring_ok c'
           \<and> length (entries c') = length (entries ctx) \<and> capacity c' = capacity ctx"
proof -
  let ?c1 = "ctx\<lparr>last_now_ms := t, ext_jam_recent := 1, ext_jam_since_ms := t\<rparr>"
  have ok1: "ring_ok ?c1" using ok by (simp add: ring_ok_cong [of ?c1 ctx])
  from prune_old_by_time_ok [OF ok1, of t]
  obtain c2 where p: "prune_old_by_time ?c1 t = Some c2" and ok2: "ring_ok c2" by blast
  note f = prune_old_by_time_fields [OF p]
  obtain c' fired where m: "maybe_fire_hop_callback (update_report c2 t) t = (c', fired)"
    by (cases "maybe_fire_hop_callback (update_report c2 t) t")
  then have c': "c' = fst (maybe_fire_hop_callback (update_report c2 t) t)" by simp
  have "ring_ok c'" using ok2 by (simp add: c' ring_ok_after_report)
  moreover have "length (entries c') = length (entries ctx)" "capacity c' = capacity ctx"
    using f(3,5) by (simp_all add: c')
  moreover have "aj_register_external_jam ctx t = Some (c', fired)"
    using p m by (simp add: aj_register_external_jam_def)
  ultimately show ?thesis by blast
qed

lemma tick_ok:
  assumes ok: "ring_ok ctx"
  shows "\<exists>c'. aj_tick ctx t = Some c' \<and> ring_ok c'
           \<and> length (entries c') = length (entries ctx) \<and> capacity c' = capacity ctx"
proof -
  let ?c1 = "ctx\<lparr>last_now_ms := t\<rparr>"
  have ok1: "ring_ok ?c1" using ok by (simp add: ring_ok_cong [of ?c1 ctx])
  have "\<exists>c3. tick_time_window ?c1 t = Some c3 \<and> ring_ok c3
          \<and> entries c3 = entries ctx \<and> capacity c3 = capacity ctx"
  proof (cases "window_mode (cfg ?c1) = AJ_WINDOW_BY_TIME")
    case False
    with ok1 show ?thesis by (simp add: tick_time_window_def)
  next
    case True
    from prune_old_by_time_ok [OF ok1, of t]
    obtain c2 where p: "prune_old_by_time ?c1 t = Some c2" and ok2: "ring_ok c2" by blast
    note f = prune_old_by_time_fields [OF p]
    from tick_time_window_by_time [OF True p refl]
    show ?thesis using ok2 f(3,5)
      by (auto simp: ring_ok_on_window_boundary
          ring_ok_cong [of "c2\<lparr>window_start_ms := w\<rparr>" c2 for w])
  qed
  then obtain c3 where w: "tick_time_window ?c1 t = Some c3" and ok3: "ring_ok c3"
    and f3: "entries c3 = entries ctx" "capacity c3 = capacity ctx" by blast
  have "aj_tick ctx t = Some (update_report (tick_age_ext_jam c3 t) t)"
    using w by (simp add: aj_tick_def)
  moreover have "ring_ok (update_report (tick_age_ext_jam c3 t) t)"
    using ok3 by (simp add: ring_ok_update_report ring_ok_tick_age)
  ultimately show ?thesis using f3 by simp
qed

lemma ring_ok_empty:
  assumes "capacity c \<noteq> 0" "count c = 0" "head c = 0" "bad_count c = 0"
  shows "ring_ok c"
  using assms
  by (simp add: ring_ok_alt bad_in_ring_def ring_entries_def word_neq_0_conv)

lemma apply_cfg_fields [simp]:
  "count (aj_internal_apply_cfg ctx c) = count ctx"
  "head (aj_internal_apply_cfg ctx c) = head ctx"
  "bad_count (aj_internal_apply_cfg ctx c) = bad_count ctx"
  "entries (aj_internal_apply_cfg ctx c) = entries ctx"
  "last_now_ms (aj_internal_apply_cfg ctx c) = last_now_ms ctx"
  "capacity (aj_internal_apply_cfg ctx c)
     = (if window_size_packets c = 0 then 1 else window_size_packets c)"
  by (simp_all add: aj_internal_apply_cfg_def Let_def)

lemma reset_ok:
  assumes "ring_ok ctx"
  shows "ring_ok (aj_reset ctx)" "entries (aj_reset ctx) = entries ctx"
    "capacity (aj_reset ctx) = capacity ctx"
proof -
  have "capacity ctx \<noteq> 0" using assms by (simp add: ring_ok_alt)
  then show "ring_ok (aj_reset ctx)"
    by (intro ring_ok_empty) (simp_all add: aj_reset_def)
  show "entries (aj_reset ctx) = entries ctx" "capacity (aj_reset ctx) = capacity ctx"
    by (simp_all add: aj_reset_def)
qed

lemma configure_ok:
  assumes "ring_ok ctx"
  shows "ring_ok (aj_configure ctx c)" "entries (aj_configure ctx c) = entries ctx"
    "capacity (aj_configure ctx c)
       = (if window_size_packets c = 0 then 1 else window_size_packets c)"
proof -
  show "entries (aj_configure ctx c) = entries ctx"
    "capacity (aj_configure ctx c)
       = (if window_size_packets c = 0 then 1 else window_size_packets c)"
    by (simp_all add: aj_configure_def Let_def)
  show "ring_ok (aj_configure ctx c)"
  proof (cases "capacity (aj_internal_apply_cfg ctx c) = capacity ctx")
    case True
    have "ring_ok (aj_configure ctx c) = ring_ok ctx"
      using True by (intro ring_ok_cong) (simp_all add: aj_configure_def Let_def)
    with assms show ?thesis by simp
  next
    case False
    then show ?thesis
      by (intro ring_ok_empty) (simp_all add: aj_configure_def Let_def)
  qed
qed

lemma init_wf:
  assumes "aj_init slots c = Some ctx"
  shows "aj_wf ctx" "length (entries ctx) = slots"
proof -
  let ?cap = "if window_size_packets c = 0 then 1 else window_size_packets c"
  from assms have le: "unat ?cap \<le> slots" and
    f: "capacity ctx = ?cap" "count ctx = 0" "head ctx = 0" "bad_count ctx = 0"
       "length (entries ctx) = slots"
    by (auto simp: aj_init_def split: if_splits)
  have "capacity ctx \<noteq> 0" by (simp add: f(1))
  then have "ring_ok ctx" using f(2-4) by (rule ring_ok_empty)
  with le f(1,5) show "aj_wf ctx" by (simp add: aj_wf_def)
  show "length (entries ctx) = slots" by (rule f(5))
qed

lemma apply_ok:
  assumes "ring_ok ctx" "aj_apply x ctx = Some (c', fs)"
  shows "ring_ok c'" "length (entries c') = length (entries ctx)"
proof -
  have "ring_ok c' \<and> length (entries c') = length (entries ctx)"
  proof (cases x)
    case (Register_packet g t)
    with assms(2) obtain fired where "aj_register_packet ctx g t = Some (c', fired)"
      by (auto split: option.splits)
    from register_packet_ok [OF assms(1) this] show ?thesis by simp
  next
    case (Register_external_jam t)
    with assms(2) register_external_jam_ok [OF assms(1), of t] show ?thesis
      by (auto split: option.splits)
  next
    case (Tick t)
    with assms(2) tick_ok [OF assms(1), of t] show ?thesis
      by (auto split: option.splits)
  next
    case Reset
    with assms(2) reset_ok [OF assms(1)] show ?thesis by auto
  next
    case (Configure c)
    with assms(2) configure_ok [OF assms(1), of c] show ?thesis by auto
  next
    case (Set_hop_callback f u)
    with assms show ?thesis
      by (auto simp: aj_set_hop_callback_def
          ring_ok_cong [of "ctx\<lparr>hop_cb := f, hop_cb_ctx := u\<rparr>" ctx])
  qed
  then show "ring_ok c'" "length (entries c') = length (entries ctx)" by simp_all
qed

lemma run_ok:
  "ring_ok ctx \<Longrightarrow> aj_run ctx xs = Some (c', fs) \<Longrightarrow>
     ring_ok c' \<and> length (entries c') = length (entries ctx)"
proof (induction xs arbitrary: ctx fs)
  case Nil
  then show ?case by simp
next
  case (Cons x xs)
  from Cons.prems(2) obtain c1 f1 f2 where a: "aj_apply x ctx = Some (c1, f1)"
    and r: "aj_run c1 xs = Some (c', f2)"
    by (auto split: option.splits)
  note ok1 = apply_ok [OF Cons.prems(1) a]
  from Cons.IH [OF ok1(1) r] ok1(2) show ?case by simp
qed

lemma register_packet_capacity:
  assumes ok: "ring_ok ctx" and run: "aj_register_packet ctx g t = Some (c', fired)"
  shows "capacity c' = capacity ctx" "cfg c' = cfg ctx" "hop_cb c' = hop_cb ctx"
proof -
  have ok1: "ring_ok (ctx\<lparr>last_now_ms := t\<rparr>)"
    using ok by (simp add: ring_ok_cong [of "ctx\<lparr>last_now_ms := t\<rparr>" ctx])
  from run obtain c2 where p: "prune_old_by_time (ctx\<lparr>last_now_ms := t\<rparr>) t = Some c2"
    by (auto simp: aj_register_packet_def split: option.splits)
  from prune_old_by_time_ok [OF ok1, of t] p have ok2: "ring_ok c2" by simp
  from run p obtain c6 where i: "ring_insert c2 g t = Some c6"
    by (auto simp: aj_register_packet_def split: option.splits)
  note f2 = prune_old_by_time_fields [OF p]
  note f6 = ring_insert_fields [OF ok2 i]
  define c7 where "c7 = (if window_mode (cfg c6) = AJ_WINDOW_BY_COUNT
                             \<and> count c6 = capacity c6 \<and> head c6 = 0
                          then on_window_boundary c6 t else c6)"
  have c': "c' = fst (maybe_fire_hop_callback (update_report c7 t) t)"
    using run p i by (simp add: aj_register_packet_def c7_def Let_def)
  show "capacity c' = capacity ctx" "cfg c' = cfg ctx" "hop_cb c' = hop_cb ctx"
    using f2(1,3,11) f6(1,2,5) by (simp_all add: c' c7_def)
qed

lemma apply_defined:
  assumes wf: "aj_wf ctx" and fits: "fits_buffer (length (entries ctx)) x"
  shows "\<exists>c' fs. aj_apply x ctx = Some (c', fs) \<and> aj_wf c'"
proof -
  have ok: "ring_ok ctx" and cap: "unat (capacity ctx) \<le> length (entries ctx)"
    using wf by (simp_all add: aj_wf_def)
  have one: "1 \<le> length (entries ctx)"
    using ring_nat_facts(1) [OF ok] cap by simp
  show ?thesis
  proof (cases x)
    case (Register_packet g t)
    from register_packet_defined [OF wf, of g t]
    obtain c' fired where r: "aj_register_packet ctx g t = Some (c', fired)" by auto
    from register_packet_ok [OF ok r] register_packet_capacity(1) [OF ok r] cap
    have "aj_wf c'" by (simp add: aj_wf_def)
    with r Register_packet show ?thesis by simp
  next
    case (Register_external_jam t)
    with register_external_jam_ok [OF ok, of t] cap show ?thesis
      by (auto simp: aj_wf_def)
  next
    case (Tick t)
    with tick_ok [OF ok, of t] cap show ?thesis
      by (auto simp: aj_wf_def)
  next
    case Reset
    with reset_ok [OF ok] cap show ?thesis by (simp add: aj_wf_def)
  next
    case (Configure c)
    with configure_ok [OF ok, of c] fits one show ?thesis by (simp add: aj_wf_def)
  next
    case (Set_hop_callback f u)
    with apply_ok [OF ok, of x "aj_set_hop_callback ctx f u" "[]"] cap show ?thesis
      by (simp add: aj_wf_def) (simp add: aj_set_hop_callback_def)
  qed
qed

lemma run_defined:
  "aj_wf ctx \<Longrightarrow> \<forall>x \<in> set xs. fits_buffer (length (entries ctx)) x \<Longrightarrow>
     \<exists>r. aj_run ctx xs = Some r"
proof (induction xs arbitrary: ctx)
  case Nil
  then show ?case by simp
next
  case (Cons x xs)
  from apply_defined [OF Cons.prems(1), of x] Cons.prems(2)
  obtain c1 f1 where a: "aj_apply x ctx = Some (c1, f1)" and wf1: "aj_wf c1" by auto
  have "ring_ok ctx" using Cons.prems(1) by (simp add: aj_wf_def)
  from apply_ok(2) [OF this a] Cons.prems(2)
  have "\<forall>x \<in> set xs. fits_buffer (length (entries c1)) x" by simp
  from Cons.IH [OF wf1 this] a show ?case by (auto split: option.splits)
qed

text \<open>
  Claim C2: in every context reached from \<^verbatim>\<open>aj_init\<close> by any sequence of
  \<^verbatim>\<open>aj_register_packet\<close>, \<^verbatim>\<open>aj_register_external_jam\<close>, \<^verbatim>\<open>aj_tick\<close>, \<^verbatim>\<open>aj_reset\<close>, \<^verbatim>\<open>aj_configure\<close>
  (and \<^verbatim>\<open>aj_set_hop_callback\<close>) calls, \<open>bad_count\<close> equals the number of entries in the ring
  whose good flag is 0, and \<open>count\<close> does not exceed \<open>capacity\<close>. The run itself is defined
  (no access outside the buffer) whenever no reconfiguration asks for more entries than the
  buffer has slots.
\<close>

theorem bad_count_invariant:
  assumes "aj_init slots c0 = Some ctx0"
  shows "(\<forall>ctx fires. aj_run ctx0 calls = Some (ctx, fires) \<longrightarrow>
            unat (bad_count ctx) = bad_in_ring ctx \<and> count ctx \<le> capacity ctx)
       \<and> ((\<forall>x \<in> set calls. fits_buffer slots x) \<longrightarrow> aj_run ctx0 calls \<noteq> None)"
proof -
  note wf = init_wf [OF assms]
  have ok: "ring_ok ctx0" using wf(1) by (simp add: aj_wf_def)
  have "unat (bad_count ctx) = bad_in_ring ctx \<and> count ctx \<le> capacity ctx"
    if "aj_run ctx0 calls = Some (ctx, fires)" for ctx fires
    using run_ok [OF ok that] by (simp add: ring_ok_alt)
  moreover have "aj_run ctx0 calls \<noteq> None" if "\<forall>x \<in> set calls. fits_buffer slots x"
    using run_defined [OF wf(1), of calls] that wf(2) by auto
  ultimately show ?thesis by blast
qed

theorem bad_count_invariant_witness:
  "aj_init 5 example_cfg = Some example_init_ctx
   \<and> list_all (fits_buffer 5) example_calls
   \<and> (\<exists>ctx fires. aj_run example_init_ctx example_calls = Some (ctx, fires)
         \<and> unat (bad_count ctx) = bad_in_ring ctx \<and> count ctx \<le> capacity ctx
         \<and> bad_count ctx = 1)"
proof -
  have init: "aj_init 5 example_cfg = Some example_init_ctx"
    by (simp add: aj_init_def aj_internal_apply_cfg_def example_cfg_def example_init_ctx_def Let_def)
  have fits: "\<forall>x \<in> set example_calls. fits_buffer 5 x"
    by (simp add: example_calls_def example_cfg_def)
  have ev: "map_option (bad_count \<circ> fst) (aj_run example_init_ctx example_calls) = Some 1"
    by code_simp
  from bad_count_invariant [OF init, of example_calls] fits ev init show ?thesis
    by (auto simp: list_all_iff)
qed

subsection \<open>Ticks\<close>

text \<open>
  Claim C7: a second \<^verbatim>\<open>aj_tick\<close> with the same timestamp changes nothing: it returns the very
  context the first tick returned, hence the same report. The first tick is defined on every
  context with a consistent ring.
\<close>

theorem tick_idempotent:
  "(\<forall>c1. aj_tick ctx t = Some c1 \<longrightarrow>
       (\<exists>c2. aj_tick c1 t = Some c2 \<and> aj_get_report c2 = aj_get_report c1 \<and> c2 = c1))
   \<and> (ring_ok ctx \<longrightarrow> aj_tick ctx t \<noteq> None)"
proof -
  have "aj_tick c1 t = Some c1" if "aj_tick ctx t = Some c1" for c1
    using that by (rule tick_fixed)
  moreover have "aj_tick ctx t \<noteq> None" if "ring_ok ctx"
    using tick_ok [OF that, of t] by auto
  ultimately show ?thesis by simp
qed

theorem tick_idempotent_witness:
  "ring_ok example_busy_ctx
   \<and> (\<exists>c1. aj_tick example_busy_ctx 75 = Some c1
         \<and> (\<exists>c2. aj_tick c1 75 = Some c2 \<and> aj_get_report c2 = aj_get_report c1 \<and> c2 = c1)
         \<and> state c1 = AJ_STATE_JAMMED \<and> count c1 = 1 \<and> ext_jam_recent c1 = 0
         \<and> rpt_score (aj_get_report c1) = 100)"
proof -
  have ok: "ring_ok example_busy_ctx" by code_simp
  have ev: "map_option (\<lambda>c. (state c, count c, ext_jam_recent c, rpt_score (aj_get_report c)))
              (aj_tick example_busy_ctx 75) = Some (AJ_STATE_JAMMED, 1, 0, 100)"
    by code_simp
  from tick_idempotent [of example_busy_ctx 75] ok ev show ?thesis by auto
qed

subsection \<open>The score of an empty ring\<close>

lemma prune_loop_empty: "count ctx = 0 \<Longrightarrow> prune_loop ctx cutoff = Some ctx"
  by (subst prune_loop.simps) simp

lemma prune_old_by_time_empty: "count ctx = 0 \<Longrightarrow> prune_old_by_time ctx t = Some ctx"
  by (simp add: prune_old_by_time_def Let_def prune_loop_empty)

lemma calc_score_empty: "count ctx = 0 \<Longrightarrow> calc_score ctx = (0, 0, bad_count ctx)"
  by (simp add: calc_score_def)

lemma update_report_score: "rpt_score (last_report (update_report c t)) = fst (calc_score c)"
  by (simp add: update_report_def Let_def split: prod.splits)

text \<open>
  Claim C9: with an empty ring the score is 0, also when the external-jam flag is set: the
  bonus of 10 is added only inside the branch for a non-empty window. In particular
  \<^verbatim>\<open>aj_register_external_jam\<close> on an empty ring sets the flag and reports score 0.
\<close>

theorem empty_ring_score_zero:
  assumes "count ctx = 0"
  shows "fst (calc_score ctx) = 0
       \<and> fst (calc_score (ctx\<lparr>ext_jam_recent := 1\<rparr>)) = 0
       \<and> (\<exists>ctx' fired. aj_register_external_jam ctx t = Some (ctx', fired)
            \<and> ext_jam_recent ctx' = 1 \<and> count ctx' = 0
            \<and> rpt_score (last_report ctx') = 0)"
proof -
  let ?c1 = "ctx\<lparr>last_now_ms := t, ext_jam_recent := 1, ext_jam_since_ms := t\<rparr>"
  have c1: "count ?c1 = 0" using assms by simp
  have p: "prune_old_by_time ?c1 t = Some ?c1" by (rule prune_old_by_time_empty [OF c1])
  have r: "aj_register_external_jam ctx t
             = Some (maybe_fire_hop_callback (update_report ?c1 t) t)"
    by (simp add: aj_register_external_jam_def p)
  obtain ctx' fired where mf: "maybe_fire_hop_callback (update_report ?c1 t) t = (ctx', fired)"
    by (cases "maybe_fire_hop_callback (update_report ?c1 t) t")
  have ctx': "ctx' = fst (maybe_fire_hop_callback (update_report ?c1 t) t)"
    by (simp add: mf)
  have "rpt_score (last_report ctx') = 0" "ext_jam_recent ctx' = 1" "count ctx' = 0"
    using c1 by (simp_all add: ctx' update_report_score calc_score_empty)
  with r mf have "\<exists>ctx' fired. aj_register_external_jam ctx t = Some (ctx', fired)
            \<and> ext_jam_recent ctx' = 1 \<and> count ctx' = 0
            \<and> rpt_score (last_report ctx') = 0"
    by simp
  then show ?thesis
    using assms by (simp add: calc_score_empty)
qed

theorem empty_ring_score_zero_witness:
  "count example_count_ctx = 0
   \<and> fst (calc_score example_count_ctx) = 0
   \<and> fst (calc_score (example_count_ctx\<lparr>ext_jam_recent := 1\<rparr>)) = 0
   \<and> (\<exists>ctx' fired. aj_register_external_jam example_count_ctx 45 = Some (ctx', fired)
         \<and> ext_jam_recent ctx' = 1 \<and> count ctx' = 0 \<and> rpt_score (last_report ctx') = 0)"
  using empty_ring_score_zero [of example_count_ctx 45]
  by (simp add: example_count_ctx_def)

subsection \<open>Pacing of the hop callback\<close>

lemma update_report_reco:
  assumes "rpt_recommend_hop (last_report (update_report c t)) \<noteq> 0"
  shows "min_time_between_reco_ms (cfg c) \<le> t - last_reco_ms c"
  using assms
  by (auto simp: update_report_def Let_def split: prod.splits if_splits)

lemma maybe_fire_cases:
  assumes "maybe_fire_hop_callback (update_report c t) t = (c', fired)"
  shows "cfg c' = cfg c"
    and "fired = None \<Longrightarrow> last_reco_ms c' = last_reco_ms c"
    and "fired \<noteq> None \<Longrightarrow>
           last_reco_ms c' = t \<and> min_time_between_reco_ms (cfg c) \<le> t - last_reco_ms c"
proof -
  show "cfg c' = cfg c"
    using assms by (auto simp: maybe_fire_hop_callback_def split: if_splits)
  show "fired = None \<Longrightarrow> last_reco_ms c' = last_reco_ms c"
    using assms by (auto simp: maybe_fire_hop_callback_def split: if_splits)
  show "fired \<noteq> None \<Longrightarrow>
           last_reco_ms c' = t \<and> min_time_between_reco_ms (cfg c) \<le> t - last_reco_ms c"
    using assms update_report_reco [of c t]
    by (auto simp: maybe_fire_hop_callback_def split: if_splits)
qed

lemma register_packet_fire:
  assumes run: "aj_register_packet ctx g t = Some (c', fired)"
  shows "cfg c' = cfg ctx"
    and "fired = None \<Longrightarrow> last_reco_ms c' = last_reco_ms ctx"
    and "fired \<noteq> None \<Longrightarrow>
           last_reco_ms c' = t \<and> min_time_between_reco_ms (cfg ctx) \<le> t - last_reco_ms ctx"
proof -
  from run obtain c2 where p: "prune_old_by_time (ctx\<lparr>last_now_ms := t\<rparr>) t = Some c2"
    by (auto simp: aj_register_packet_def split: option.splits)
  from run p obtain c6 where i: "ring_insert c2 g t = Some c6"
    by (auto simp: aj_register_packet_def split: option.splits)
  note f2 = prune_old_by_time_fields [OF p]
  have f6: "cfg c6 = cfg c2" "last_reco_ms c6 = last_reco_ms c2"
    using i by (auto simp: ring_insert_def Let_def split: if_splits)
  define c7 where "c7 = (if window_mode (cfg c6) = AJ_WINDOW_BY_COUNT
                             \<and> count c6 = capacity c6 \<and> head c6 = 0
                          then on_window_boundary c6 t else c6)"
  have f7: "cfg c7 = cfg ctx" "last_reco_ms c7 = last_reco_ms ctx"
    using f2(1,10) f6 by (simp_all add: c7_def)
  have m: "maybe_fire_hop_callback (update_report c7 t) t = (c', fired)"
    using run p i by (simp add: aj_register_packet_def c7_def Let_def)
  note mc = maybe_fire_cases [OF m]
  show "cfg c' = cfg ctx" using mc(1) f7 by simp
  show "fired = None \<Longrightarrow> last_reco_ms c' = last_reco_ms ctx" using mc(2) f7 by simp
  show "fired \<noteq> None \<Longrightarrow>
           last_reco_ms c' = t \<and> min_time_between_reco_ms (cfg ctx) \<le> t - last_reco_ms ctx"
    using mc(3) f7 by simp
qed

lemma register_external_jam_fire:
  assumes run: "aj_register_external_jam ctx t = Some (c', fired)"
  shows "cfg c' = cfg ctx"
    and "fired = None \<Longrightarrow> last_reco_ms c' = last_reco_ms ctx"
    and "fired \<noteq> None \<Longrightarrow>
           last_reco_ms c' = t \<and> min_time_between_reco_ms (cfg ctx) \<le> t - last_reco_ms ctx"
proof -
  let ?c1 = "ctx\<lparr>last_now_ms := t, ext_jam_recent := 1, ext_jam_since_ms := t\<rparr>"
  from run obtain c2 where p: "prune_old_by_time ?c1 t = Some c2"
    by (auto simp: aj_register_external_jam_def split: option.splits)
  note f2 = prune_old_by_time_fields [OF p]
  have m: "maybe_fire_hop_callback (update_report c2 t) t = (c', fired)"
    using run p by (simp add: aj_register_external_jam_def)
  note mc = maybe_fire_cases [OF m]
  show "cfg c' = cfg ctx" using mc(1) f2(1) by simp
  show "fired = None \<Longrightarrow> last_reco_ms c' = last_reco_ms ctx" using mc(2) f2(10) by simp
  show "fired \<noteq> None \<Longrightarrow>
           last_reco_ms c' = t \<and> min_time_between_reco_ms (cfg ctx) \<le> t - last_reco_ms ctx"
    using mc(3) f2(1,10) by simp
qed

text \<open>One register call: nothing fired, or one firing at the call's own timestamp.\<close>

lemma apply_register_fire:
  assumes "is_register x" "aj_apply x ctx = Some (c', fs)"
  shows "cfg c' = cfg ctx
       \<and> (fs = [] \<and> last_reco_ms c' = last_reco_ms ctx
          \<or> (\<exists>t s. fs = [(t, s)] \<and> call_times [x] = [t] \<and> last_reco_ms c' = t
                \<and> min_time_between_reco_ms (cfg ctx) \<le> t - last_reco_ms ctx))"
proof (cases x)
  case (Register_packet g t)
  with assms(2) obtain fired where r: "aj_register_packet ctx g t = Some (c', fired)"
    and fs: "fs = (case fired of None \<Rightarrow> [] | Some s \<Rightarrow> [(t, s)])"
    by (auto split: option.splits)
  from register_packet_fire [OF r] fs Register_packet show ?thesis
    by (cases fired) auto
next
  case (Register_external_jam t)
  with assms(2) obtain fired where r: "aj_register_external_jam ctx t = Some (c', fired)"
    and fs: "fs = (case fired of None \<Rightarrow> [] | Some s \<Rightarrow> [(t, s)])"
    by (auto split: option.splits)
  from register_external_jam_fire [OF r] fs Register_external_jam show ?thesis
    by (cases fired) auto
qed (use assms(1) in simp_all)

lemma call_times_Cons_register:
  "is_register x \<Longrightarrow> \<exists>t. call_times (x # xs) = t # call_times xs \<and> call_times [x] = [t]"
  by (cases x) simp_all

lemma run_first_fire:
  "\<forall>x \<in> set xs. is_register x \<Longrightarrow> aj_run ctx xs = Some (c', fires) \<Longrightarrow>
     cfg c' = cfg ctx
     \<and> (fires = [] \<longrightarrow> last_reco_ms c' = last_reco_ms ctx)
     \<and> (fires \<noteq> [] \<longrightarrow>
          fst (hd fires) \<in> set (call_times xs)
          \<and> min_time_between_reco_ms (cfg ctx) \<le> fst (hd fires) - last_reco_ms ctx)"
proof (induction xs arbitrary: ctx fires)
  case Nil
  then show ?case by simp
next
  case (Cons x xs)
  from Cons.prems(2) obtain c1 f1 f2 where a: "aj_apply x ctx = Some (c1, f1)"
    and r: "aj_run c1 xs = Some (c', f2)" and fires: "fires = f1 @ f2"
    by (auto split: option.splits)
  have reg: "is_register x" "\<forall>x \<in> set xs. is_register x" using Cons.prems(1) by simp_all
  note ih = Cons.IH [OF reg(2) r]
  note ap = apply_register_fire [OF reg(1) a]
  from call_times_Cons_register [OF reg(1), of xs]
  obtain t0 where ct: "call_times (x # xs) = t0 # call_times xs" "call_times [x] = [t0]"
    by blast
  show ?case
  proof (cases "f1 = []")
    case True
    with ap ih fires ct(1) show ?thesis by auto
  next
    case False
    with ap obtain t s where "f1 = [(t, s)]" "call_times [x] = [t]"
      "min_time_between_reco_ms (cfg ctx) \<le> t - last_reco_ms ctx" by auto
    with ct ap fires ih show ?thesis by auto
  qed
qed

lemma spaced_step:
  fixes t f m :: u32
  assumes "t \<le> f" "m \<le> f - t"
  shows "unat t + unat m \<le> unat f"
proof -
  have "unat (f - t) = unat f - unat t" using assms(1) by (simp add: unat_sub)
  moreover have "unat m \<le> unat (f - t)" using assms(2) by (simp add: word_le_nat_alt)
  moreover have "unat t \<le> unat f" using assms(1) by (simp add: word_le_nat_alt)
  ultimately show ?thesis by simp
qed

lemma run_spaced:
  "\<forall>x \<in> set xs. is_register x \<Longrightarrow> sorted (call_times xs) \<Longrightarrow>
   aj_run ctx xs = Some (c', fires) \<Longrightarrow>
     spaced (unat (min_time_between_reco_ms (cfg ctx))) (map fst fires)"
proof (induction xs arbitrary: ctx fires)
  case Nil
  then show ?case by simp
next
  case (Cons x xs)
  from Cons.prems(3) obtain c1 f1 f2 where a: "aj_apply x ctx = Some (c1, f1)"
    and r: "aj_run c1 xs = Some (c', f2)" and fires: "fires = f1 @ f2"
    by (auto split: option.splits)
  have reg: "is_register x" "\<forall>x \<in> set xs. is_register x" using Cons.prems(1) by simp_all
  from call_times_Cons_register [OF reg(1), of xs]
  obtain t0 where ct: "call_times (x # xs) = t0 # call_times xs" "call_times [x] = [t0]"
    by blast
  have srt: "sorted (call_times xs)" "\<forall>u \<in> set (call_times xs). t0 \<le> u"
    using Cons.prems(2) ct(1) by simp_all
  note ap = apply_register_fire [OF reg(1) a]
  have cfg1: "cfg c1 = cfg ctx" using ap by simp
  have ih: "spaced (unat (min_time_between_reco_ms (cfg ctx))) (map fst f2)"
    using Cons.IH [OF reg(2) srt(1) r] cfg1 by simp
  note ff = run_first_fire [OF reg(2) r]
  show ?case
  proof (cases "f1 = []")
    case True
    with ih fires show ?thesis by simp
  next
    case False
    with ap ct(2) obtain s where f1: "f1 = [(t0, s)]" and lr: "last_reco_ms c1 = t0" by auto
    show ?thesis
    proof (cases f2)
      case Nil
      with f1 fires show ?thesis by simp
    next
      case (Cons p ps)
      with ff cfg1 lr have "fst p \<in> set (call_times xs)"
        "min_time_between_reco_ms (cfg ctx) \<le> fst p - t0" by auto
      with srt(2) have "unat t0 + unat (min_time_between_reco_ms (cfg ctx)) \<le> unat (fst p)"
        by (intro spaced_step) auto
      with ih Cons f1 fires show ?thesis by simp
    qed
  qed
qed

lemma run_fire_times:
  "\<forall>x \<in> set xs. is_register x \<Longrightarrow> aj_run ctx xs = Some (c', fires) \<Longrightarrow>
     set (map fst fires) \<subseteq> set (call_times xs)"
proof (induction xs arbitrary: ctx fires)
  case Nil
  then show ?case by simp
next
  case (Cons x xs)
  from Cons.prems(2) obtain c1 f1 f2 where a: "aj_apply x ctx = Some (c1, f1)"
    and r: "aj_run c1 xs = Some (c', f2)" and fires: "fires = f1 @ f2"
    by (auto split: option.splits)
  have reg: "is_register x" "\<forall>x \<in> set xs. is_register x" using Cons.prems(1) by simp_all
  from call_times_Cons_register [OF reg(1), of xs]
  obtain t0 where ct: "call_times (x # xs) = t0 # call_times xs" "call_times [x] = [t0]"
    by blast
  from apply_register_fire [OF reg(1) a] ct(2)
  have "set (map fst f1) \<subseteq> {t0}" by auto
  with Cons.IH [OF reg(2) r] fires ct(1) show ?case by auto
qed

lemma register_fits: "is_register x \<Longrightarrow> fits_buffer n x"
  by (cases x) simp_all

text \<open>
  Claim C3: in a run of \<^verbatim>\<open>aj_register_packet\<close> and \<^verbatim>\<open>aj_register_external_jam\<close> calls with
  non-decreasing timestamps, the timestamps of any two consecutive firings of the hop callback
  lie at least the context's \<open>min_time_between_reco_ms\<close> apart, and every firing carries the
  timestamp of the call that caused it. The run is defined on every well-formed context.
\<close>

theorem hop_rate_limit:
  assumes "\<forall>x \<in> set calls. is_register x" and "sorted (call_times calls)"
  shows "(\<forall>ctx' fires. aj_run ctx calls = Some (ctx', fires) \<longrightarrow>
            spaced (unat (min_time_between_reco_ms (cfg ctx))) (map fst fires)
            \<and> set (map fst fires) \<subseteq> set (call_times calls))
       \<and> (aj_wf ctx \<longrightarrow> aj_run ctx calls \<noteq> None)"
proof -
  have "aj_run ctx calls \<noteq> None" if "aj_wf ctx"
    using run_defined [OF that, of calls] assms(1) register_fits by auto
  then show ?thesis
    using run_spaced [OF assms] run_fire_times [OF assms(1)] by blast
qed

theorem hop_rate_limit_witness:
  "list_all is_register example_register_calls
   \<and> sorted (call_times example_register_calls)
   \<and> aj_wf example_count_ctx \<and> hop_cb example_count_ctx \<noteq> None
   \<and> (\<exists>ctx' fires. aj_run example_count_ctx example_register_calls = Some (ctx', fires)
         \<and> map fst fires = [20, 45, 70]
         \<and> spaced (unat (min_time_between_reco_ms (cfg example_count_ctx))) (map fst fires))"
proof -
  have reg: "\<forall>x \<in> set example_register_calls. is_register x"
    by (simp add: example_register_calls_def)
  have srt: "sorted (call_times example_register_calls)"
    by (simp add: example_register_calls_def)
  have wf: "aj_wf example_count_ctx" by code_simp
  have cb: "hop_cb example_count_ctx \<noteq> None" by (simp add: example_count_ctx_def)
  have ev: "map_option (map fst \<circ> snd) (aj_run example_count_ctx example_register_calls)
              = Some [20, 45, 70]"
    by code_simp
  from hop_rate_limit [OF reg srt, of example_count_ctx] reg srt wf cb ev show ?thesis
    by (auto simp: list_all_iff)
qed

subsection \<open>The detection-threshold scenario\<close>

lemma scenario_init:
  assumes "aj_init slots (scenario_cfg duration allow) = Some ci"
  shows "scenario_filling duration allow 0 0 (aj_set_hop_callback ci (Some f) u)"
  using assms
  by (auto simp: aj_init_def aj_internal_apply_cfg_def scenario_cfg_def Let_def
      aj_set_hop_callback_def scenario_filling_def split: if_splits)

lemma update_report_not_jammed:
  "state c = AJ_STATE_NOT_JAMMED \<Longrightarrow> rpt_recommend_hop (last_report (update_report c t)) = 0"
  by (simp add: update_report_def Let_def split: prod.splits)

lemma scenario_step:
  assumes inv: "scenario_filling duration allow k b c" and k: "k < 99" and b: "b \<le> k"
  shows "\<exists>c'. aj_register_packet c g t = Some (c', None)
           \<and> scenario_filling duration allow (Suc k) (b + (if g = 0 then 1 else 0)) c'"
proof -
  let ?c1 = "c\<lparr>last_now_ms := t\<rparr>"
  let ?e = "\<lparr>good = bool01 g, ts = t\<rparr>"
  have cfgc: "cfg c = (scenario_cfg duration allow)\<lparr>min_time_between_reco_ms := 500\<rparr>"
    and cap: "capacity c = 100" and cnt: "unat (count c) = k" and hd: "unat (head c) = k"
    and bc: "unat (bad_count c) = b" and st: "state c = AJ_STATE_NOT_JAMMED"
    and js: "jam_streak c = 0" and lr: "last_reco_ms c = 0" and ej: "ext_jam_recent c = 0"
    and cb: "hop_cb c \<noteq> None" and len: "100 \<le> length (entries c)"
    using inv by (simp_all add: scenario_filling_def)
  have mode: "window_mode (cfg c) = AJ_WINDOW_BY_COUNT" by (simp add: cfgc scenario_cfg_def)
  have p: "prune_old_by_time ?c1 t = Some ?c1" by (simp add: prune_old_by_time_def mode)
  have nf: "count c \<noteq> capacity c" using cnt k by (auto simp: cap)
  have cnt1: "unat (count c + 1) = Suc k"
    using unat_succ_u16 [of "count c" 100] cnt k by simp
  have bc1: "unat (bad_count c + 1) = Suc b"
    using unat_succ_u16 [of "bad_count c" 100] bc b k by simp
  have hd1: "unat (head c + 1) = Suc k"
    using unat_succ_u16 [of "head c" 100] hd k by simp
  define c6 where "c6 = c\<lparr>last_now_ms := t, count := count c + 1,
      entries := (entries c)[k := ?e],
      bad_count := (if bool01 g = 0 then bad_count c + 1 else bad_count c),
      head := head c + 1\<rparr>"
  have i: "ring_insert ?c1 g t = Some c6"
    using nf len k by (simp add: ring_insert_def Let_def c6_def cap hd)
  have nb: "count c6 \<noteq> capacity c6"
  proof -
    have "unat (count c6) = Suc k" by (simp add: c6_def cnt1)
    moreover have "unat (capacity c6) = 100" by (simp add: c6_def cap)
    ultimately show ?thesis using k by auto
  qed
  have st6: "state c6 = AJ_STATE_NOT_JAMMED" by (simp add: c6_def st)
  have nr: "rpt_recommend_hop (last_report (update_report c6 t)) = 0"
    by (rule update_report_not_jammed [OF st6])
  have m: "maybe_fire_hop_callback (update_report c6 t) t = (update_report c6 t, None)"
    using nr by (simp add: maybe_fire_hop_callback_def)
  have run: "aj_register_packet c g t = Some (update_report c6 t, None)"
    using p i nb m by (simp add: aj_register_packet_def Let_def)
  have g0: "(bool01 g = 0) = (g = 0)" by (simp add: bool01_def)
  have "scenario_filling duration allow (Suc k) (b + (if g = 0 then 1 else 0))
          (update_report c6 t)"
    unfolding scenario_filling_def
    using cfgc cap cnt1 hd1 bc bc1 st js lr ej cb len
    by (simp add: c6_def g0)
  with run show ?thesis by blast
qed

lemma scenario_last:
  assumes inv: "scenario_filling duration allow 99 b c"
    and bad: "b + (if g = 0 then 1 else 0) = 30"
  shows "\<exists>c' fired. aj_register_packet c g t = Some (c', fired)
           \<and> state c' = AJ_STATE_JAMMED \<and> rpt_score (last_report c') = 30
           \<and> (fired \<noteq> None) = (500 \<le> t)"
proof -
  let ?c1 = "c\<lparr>last_now_ms := t\<rparr>"
  let ?e = "\<lparr>good = bool01 g, ts = t\<rparr>"
  have cfgc: "cfg c = (scenario_cfg duration allow)\<lparr>min_time_between_reco_ms := 500\<rparr>"
    and cap: "capacity c = 100" and cnt: "unat (count c) = 99" and hd: "unat (head c) = 99"
    and bc: "unat (bad_count c) = b" and st: "state c = AJ_STATE_NOT_JAMMED"
    and js: "jam_streak c = 0" and lr: "last_reco_ms c = 0" and ej: "ext_jam_recent c = 0"
    and cb: "hop_cb c \<noteq> None" and len: "100 \<le> length (entries c)"
    using inv by (simp_all add: scenario_filling_def)
  have mode: "window_mode (cfg c) = AJ_WINDOW_BY_COUNT" by (simp add: cfgc scenario_cfg_def)
  have p: "prune_old_by_time ?c1 t = Some ?c1" by (simp add: prune_old_by_time_def mode)
  have cntw: "count c = 99" using cnt by (simp add: word_unat_eq_iff)
  have hdw: "head c = 99" using hd by (simp add: word_unat_eq_iff)
  have g0: "(bool01 g = 0) = (g = 0)" by (simp add: bool01_def)
  have b30: "(if bool01 g = 0 then bad_count c + 1 else bad_count c) = 30"
  proof (cases "g = 0")
    case True
    with bad bc have "unat (bad_count c) = 29" by simp
    with unat_succ_u16 [of "bad_count c" 100] have "unat (bad_count c + 1) = 30" by simp
    then have "bad_count c + 1 = 30" by (simp add: word_unat_eq_iff)
    with True show ?thesis by (simp add: bool01_def)
  next
    case False
    with bad bc have "unat (bad_count c) = 30" by simp
    then have "bad_count c = 30" by (simp add: word_unat_eq_iff)
    with False show ?thesis by (simp add: bool01_def)
  qed
  define c6 where "c6 = c\<lparr>last_now_ms := t, count := count c + 1,
      entries := (entries c)[99 := ?e],
      bad_count := (if bool01 g = 0 then bad_count c + 1 else bad_count c), head := 0\<rparr>"
  have i: "ring_insert ?c1 g t = Some c6"
    using len by (simp add: ring_insert_def Let_def c6_def cap cntw hdw)
  have f6: "count c6 = 100" "capacity c6 = 100" "head c6 = 0" "bad_count c6 = 30"
    "cfg c6 = cfg c" "state c6 = AJ_STATE_NOT_JAMMED" "jam_streak c6 = 0"
    "ext_jam_recent c6 = 0" "last_reco_ms c6 = 0" "hop_cb c6 = hop_cb c"
    using b30 by (simp_all add: c6_def cap cntw st js ej lr)
  have full: "window_mode (cfg c6) = AJ_WINDOW_BY_COUNT \<and> count c6 = capacity c6 \<and> head c6 = 0"
    by (simp add: f6 mode)
  have score: "calc_score c6 = (30, 100, 30)"
    by (simp add: calc_score_def f6)
  have jammy: "is_window_jammy c6 = 1"
    by (simp add: is_window_jammy_def score) (simp add: f6 cfgc scenario_cfg_def)
  define c7 where "c7 = c6\<lparr>jam_streak := 1, state := AJ_STATE_JAMMED, last_jam_change_ms := t\<rparr>"
  have thr: "consecutive_windows_to_jam (cfg c6) = 1"
    by (simp add: f6 cfgc scenario_cfg_def)
  have owb: "on_window_boundary c6 t = c7"
    unfolding on_window_boundary_def Let_def
    by (simp add: jammy f6(6,7) thr c7_def)
  have f7: "count c7 = 100" "bad_count c7 = 30" "ext_jam_recent c7 = 0"
    "cfg c7 = cfg c" "state c7 = AJ_STATE_JAMMED" "last_reco_ms c7 = 0" "hop_cb c7 = hop_cb c"
    by (simp_all add: c7_def f6)
  have score7: "calc_score c7 = (30, 100, 30)"
    by (simp add: calc_score_def f7)
  have rep: "rpt_score (last_report (update_report c7 t)) = 30"
    "rpt_recommend_hop (last_report (update_report c7 t)) = (if 500 \<le> t then 1 else 0)"
    by (simp_all add: update_report_def score7 Let_def)
       (simp_all add: f7 cfgc scenario_cfg_def)
  obtain c' fired where m: "maybe_fire_hop_callback (update_report c7 t) t = (c', fired)"
    by (cases "maybe_fire_hop_callback (update_report c7 t) t")
  have cb7: "hop_cb (update_report c7 t) \<noteq> None" using cb by (simp add: f7)
  have fired: "(fired \<noteq> None) = (500 \<le> t)"
    using m rep(2) cb7 by (auto simp: maybe_fire_hop_callback_def split: if_splits)
  have c': "c' = fst (maybe_fire_hop_callback (update_report c7 t) t)" using m by simp
  have "state c' = AJ_STATE_JAMMED" "rpt_score (last_report c') = 30"
    using rep(1) by (simp_all add: c' f7)
  moreover have "aj_register_packet c g t = Some (c', fired)"
    using p i full owb m by (simp add: aj_register_packet_def Let_def)
  ultimately show ?thesis using fired by blast
qed

lemma aj_run_append:
  "aj_run ctx (xs @ ys) =
     (case aj_run ctx xs of
        None \<Rightarrow> None
      | Some (c1, f1) \<Rightarrow>
          (case aj_run c1 ys of None \<Rightarrow> None | Some (c2, f2) \<Rightarrow> Some (c2, f1 @ f2)))"
  by (induction xs arbitrary: ctx) (auto split: option.splits)

lemma scenario_fill:
  "scenario_filling duration allow k b c \<Longrightarrow> k + length pkts \<le> 99 \<Longrightarrow> b \<le> k \<Longrightarrow>
     \<exists>c'. aj_run c (register_all pkts) = Some (c', [])
        \<and> scenario_filling duration allow (k + length pkts) (b + bad_packets pkts) c'"
proof (induction pkts arbitrary: k b c)
  case Nil
  then show ?case by (simp add: register_all_def bad_packets_def)
next
  case (Cons p pkts)
  obtain g t where p: "p = (g, t)" by (cases p)
  have k: "k < 99" using Cons.prems(2) by simp
  from scenario_step [OF Cons.prems(1) k Cons.prems(3), of g t]
  obtain c1 where r1: "aj_register_packet c g t = Some (c1, None)"
    and inv1: "scenario_filling duration allow (Suc k) (b + (if g = 0 then 1 else 0)) c1"
    by blast
  have "Suc k + length pkts \<le> 99" "b + (if g = 0 then 1 else 0) \<le> Suc k"
    using Cons.prems(2,3) by simp_all
  from Cons.IH [OF inv1 this]
  obtain c' where r: "aj_run c1 (register_all pkts) = Some (c', [])"
    and inv': "scenario_filling duration allow (Suc k + length pkts)
                 (b + (if g = 0 then 1 else 0) + bad_packets pkts) c'"
    by blast
  have "aj_run c (register_all (p # pkts)) = Some (c', [])"
    using r1 r by (simp add: register_all_def p)
  moreover have eq: "bad_packets (p # pkts) = (if g = 0 then 1 else 0) + bad_packets pkts"
    by (simp add: bad_packets_def p)
  ultimately show ?case using inv' by (simp add: eq add.assoc)
qed

lemma scenario_run:
  assumes init: "aj_init slots (scenario_cfg duration allow) = Some ci"
    and len: "length pkts = 100" and bad: "bad_packets pkts = 30"
  shows "\<exists>ctx' fires.
           aj_run (aj_set_hop_callback ci (Some f) u) (register_all pkts) = Some (ctx', fires)
           \<and> state ctx' = AJ_STATE_JAMMED \<and> rpt_score (aj_get_report ctx') = 30
           \<and> length fires = (if 500 \<le> snd (last pkts) then 1 else 0)"
proof -
  let ?c0 = "aj_set_hop_callback ci (Some f) u"
  have ne: "pkts \<noteq> []" using len by auto
  obtain g t where l: "last pkts = (g, t)" by (cases "last pkts")
  have split: "pkts = butlast pkts @ [(g, t)]" using ne l by (metis append_butlast_last_id)
  have bl: "length (butlast pkts) = 99" using len by simp
  have "bad_packets pkts = bad_packets (butlast pkts) + (if g = 0 then 1 else 0)"
    by (subst split) (simp add: bad_packets_def)
  with bad have b: "bad_packets (butlast pkts) + (if g = 0 then 1 else 0) = 30" by simp
  from scenario_fill [OF scenario_init [OF init, of f u], of "butlast pkts"] bl
  obtain c1 where r1: "aj_run ?c0 (register_all (butlast pkts)) = Some (c1, [])"
    and inv: "scenario_filling duration allow 99 (bad_packets (butlast pkts)) c1"
    by auto
  from scenario_last [OF inv b, of t]
  obtain c' fired where r2: "aj_register_packet c1 g t = Some (c', fired)"
    and res: "state c' = AJ_STATE_JAMMED" "rpt_score (last_report c') = 30"
      "(fired \<noteq> None) = (500 \<le> t)"
    by blast
  have "register_all pkts = register_all (butlast pkts) @ [Register_packet g t]"
    by (subst split) (simp add: register_all_def)
  then have "aj_run ?c0 (register_all pkts)
               = Some (c', case fired of None \<Rightarrow> [] | Some s \<Rightarrow> [(t, s)])"
    using r1 r2 by (simp add: aj_run_append)
  moreover have "length (case fired of None \<Rightarrow> [] | Some s \<Rightarrow> [(t, s)])
                   = (if 500 \<le> snd (last pkts) then 1 else 0)"
    using res(3) l by (cases fired) auto
  ultimately show ?thesis using res(1,2) by (simp add: aj_get_report_def)
qed

lemma scenario_outcome_eq:
  assumes len: "length pkts = 100" and bad: "bad_packets pkts = 30"
  shows "map_option (length \<circ> snd) (scenario_outcome pkts)
           = Some (if 500 \<le> snd (last pkts) then 1 else 0)"
proof -
  obtain ci where init: "aj_init 100 (scenario_cfg 1000 0) = Some ci"
    by (simp add: aj_init_def scenario_cfg_def)
  from scenario_run [OF init len bad, of 1 0] init show ?thesis
    by (auto simp: scenario_outcome_def)
qed

lemma early_packets_facts:
  "length early_packets = 100" "bad_packets early_packets = 30"
  "snd (last early_packets) = 100"
  by code_simp+

lemma late_packets_facts:
  "length late_packets = 100" "bad_packets late_packets = 30"
  "snd (last late_packets) = 1000"
  by code_simp+

text \<open>
  Claim C4, as stated, fails: \<^verbatim>\<open>aj_internal_apply_cfg\<close> replaces \<open>min_time_between_reco_ms = 0\<close>
  by 500, and \<open>last_reco_ms\<close> starts at 0, so with 100 packets at 1 ms spacing (timestamps
  1..100, 30 of them bad) the state becomes JAMMED but the callback does not fire.
\<close>

theorem detection_threshold_needs_time:
  "length early_packets = 100 \<and> bad_packets early_packets = 30
   \<and> map_option (length \<circ> snd) (scenario_outcome early_packets) = Some 0"
  using scenario_outcome_eq [OF early_packets_facts(1,2)]
  by (simp add: early_packets_facts)

text \<open>
  Claim C4 (amended): from a freshly initialised context with the scenario's configuration and
  a registered hop callback, any 100 packets of which 30 are bad leave the state JAMMED and
  the reported score exactly 30 after the 100th packet; the callback fires exactly once, on
  the 100th packet, if that packet's timestamp is at least 500 ms, and never otherwise.
\<close>

theorem detection_threshold:
  assumes "aj_init slots (scenario_cfg duration allow) = Some ci"
    and "length pkts = 100" and "bad_packets pkts = 30"
  shows "\<exists>ctx' fires.
           aj_run (aj_set_hop_callback ci (Some f) u) (register_all pkts) = Some (ctx', fires)
           \<and> state ctx' = AJ_STATE_JAMMED \<and> rpt_score (aj_get_report ctx') = 30
           \<and> length fires = (if 500 \<le> snd (last pkts) then 1 else 0)"
  using assms by (rule scenario_run)

theorem detection_threshold_witness:
  "aj_init 100 (scenario_cfg 1000 0) = Some scenario_init_ctx
   \<and> length late_packets = 100 \<and> bad_packets late_packets = 30
   \<and> (\<exists>ctx' fires.
         aj_run (aj_set_hop_callback scenario_init_ctx (Some 1) 0) (register_all late_packets)
           = Some (ctx', fires)
         \<and> state ctx' = AJ_STATE_JAMMED \<and> rpt_score (aj_get_report ctx') = 30
         \<and> length fires = 1)"
proof -
  have init: "aj_init 100 (scenario_cfg 1000 0) = Some scenario_init_ctx"
    by (simp add: aj_init_def aj_internal_apply_cfg_def scenario_cfg_def scenario_init_ctx_def
        Let_def)
  from detection_threshold [OF init late_packets_facts(1,2), of 1 0]
  show ?thesis
    using init by (simp add: late_packets_facts)
qed

end
